theory Spec2Isabelle
  imports Main "HOL-Library.Sublist" "HOL-Library.AList"
begin

section \<open>Python strings and containers\<close>

text \<open>
  A Python \<^verbatim>\<open>str\<close> is a sequence of Unicode code points: \<^verbatim>\<open>len\<close>, indexing
  and slicing all count code points. The parser looks for the code points U+00A0 and
  U+200B, so a character is modelled as its code point and a string as a list of them.
  \<open>ustr\<close> reads an ASCII literal as such a string.
\<close>

type_synonym uchar = nat
type_synonym pstr = "uchar list"

definition ustr :: "string \<Rightarrow> pstr" where
  "ustr s = map of_char s"

text \<open>The two exceptions the parsing loop can raise on its own data.\<close>

datatype error = IndexError | KeyError

definition ebind :: "error + 'a \<Rightarrow> ('a \<Rightarrow> error + 'b) \<Rightarrow> error + 'b" where
  "ebind m f = (case m of Inl e \<Rightarrow> Inl e | Inr x \<Rightarrow> f x)"

text \<open>\<^verbatim>\<open>xs[i]\<close> for a literal \<open>i \<ge> 0\<close>, and \<^verbatim>\<open>xs[-1]\<close>: both raise IndexError out of range.\<close>

definition py_nth :: "'a list \<Rightarrow> nat \<Rightarrow> error + 'a" where
  "py_nth xs i = (if i < length xs then Inr (xs ! i) else Inl IndexError)"

definition py_last :: "'a list \<Rightarrow> error + 'a" where
  "py_last xs = (if xs = [] then Inl IndexError else Inr (last xs))"

text \<open>
  \<^verbatim>\<open>s[lo:hi]\<close>: a missing bound is \<open>None\<close>, a negative bound counts from the end, and
  every bound is clamped into \<open>0..len(s)\<close>; slicing never raises.
\<close>

definition norm_idx :: "nat \<Rightarrow> int \<Rightarrow> nat" where
  "norm_idx n i = (if i < 0 then nat (max 0 (int n + i)) else min n (nat i))"

definition py_slice :: "int option \<Rightarrow> int option \<Rightarrow> 'a list \<Rightarrow> 'a list" where
  "py_slice lo hi s =
     (let n = length s;
          a = (case lo of None \<Rightarrow> 0 | Some i \<Rightarrow> norm_idx n i);
          b = (case hi of None \<Rightarrow> n | Some j \<Rightarrow> norm_idx n j)
      in drop a (take b s))"

text \<open>\<^verbatim>\<open>s.startswith(p)\<close> and \<^verbatim>\<open>s.startswith(tuple(ps))\<close>.\<close>

definition startswith :: "pstr \<Rightarrow> pstr \<Rightarrow> bool" where
  "startswith s p = prefix p s"

definition startswith_any :: "pstr \<Rightarrow> pstr list \<Rightarrow> bool" where
  "startswith_any s ps = list_ex (\<lambda>p. startswith s p) ps"

text \<open>\<^verbatim>\<open>s.find(sub)\<close> (\<open>None\<close> for \<^verbatim>\<open>-1\<close>) and \<^verbatim>\<open>sub in s\<close>.\<close>

fun py_find :: "pstr \<Rightarrow> pstr \<Rightarrow> nat option" where
  "py_find sub [] = (if sub = [] then Some 0 else None)"
| "py_find sub (c # cs) =
     (if prefix sub (c # cs) then Some 0 else map_option Suc (py_find sub cs))"

definition contains :: "pstr \<Rightarrow> pstr \<Rightarrow> bool" where
  "contains sub s = (py_find sub s \<noteq> None)"

text \<open>
  \<^verbatim>\<open>s.split(sep)\<close> and \<^verbatim>\<open>s.replace(old, new)\<close> scan from the left for non-overlapping
  occurrences. Every call site passes a non-empty separator or pattern (Python raises
  ValueError on an empty separator); on an empty one the model returns the string as it is.
\<close>

function py_split :: "pstr \<Rightarrow> pstr \<Rightarrow> pstr list" where
  "py_split sep [] = [[]]"
| "py_split sep (c # cs) =
     (if sep \<noteq> [] \<and> prefix sep (c # cs)
      then [] # py_split sep (drop (length sep) (c # cs))
      else (case py_split sep cs of
              w # ws \<Rightarrow> (c # w) # ws
            | [] \<Rightarrow> [[c]]))"
  by pat_completeness auto
termination
  by (relation "measure (\<lambda>(sep, s). length s)") auto

function py_replace :: "pstr \<Rightarrow> pstr \<Rightarrow> pstr \<Rightarrow> pstr" where
  "py_replace old new [] = []"
| "py_replace old new (c # cs) =
     (if old \<noteq> [] \<and> prefix old (c # cs)
      then new @ py_replace old new (drop (length old) (c # cs))
      else c # py_replace old new cs)"
  by pat_completeness auto
termination
  by (relation "measure (\<lambda>(old, new, s). length s)") auto

text \<open>\<^verbatim>\<open>re.split(':|;', s)\<close>: the pieces between the characters \<open>:\<close> and \<open>;\<close>.\<close>

fun re_split_colon_semicolon :: "pstr \<Rightarrow> pstr list" where
  "re_split_colon_semicolon [] = [[]]"
| "re_split_colon_semicolon (c # cs) =
     (if c = 58 \<or> c = 59 then [] # re_split_colon_semicolon cs
      else (case re_split_colon_semicolon cs of
              w # ws \<Rightarrow> (c # w) # ws
            | [] \<Rightarrow> [[c]]))"

text \<open>\<^verbatim>\<open>str(n)\<close> for a non-negative integer.\<close>

fun py_str :: "nat \<Rightarrow> pstr" where
  "py_str n = (if n < 10 then [48 + n] else py_str (n div 10) @ [48 + n mod 10])"

declare py_str.simps [simp del]


section \<open>Configuration and parser state\<close>

text \<open>
  The three field tables are read from JSON files that map a raw key to a record with
  a canonical name (\<^verbatim>\<open>'value'\<close>) and an occurrence counter (\<^verbatim>\<open>'count'\<close>). The
  tables are parameters here: each one is the list of its raw keys with their canonical
  names, in the order of the file, and the counters live in the parser state.
  \<open>tag_list\<close> and \<open>logic_op\<close> are the command-line arguments.
\<close>

record config =
  standard_field_dict :: "(pstr \<times> pstr) list"
  custom_field_dict :: "(pstr \<times> pstr) list"
  social_profile_field_dict :: "(pstr \<times> pstr) list"
  tag_list :: "pstr list"
  logic_op :: pstr

definition standard_field_list :: "config \<Rightarrow> pstr list" where
  "standard_field_list cfg = map fst (standard_field_dict cfg)"

definition custom_field_list :: "config \<Rightarrow> pstr list" where
  "custom_field_list cfg = map fst (custom_field_dict cfg)"

definition social_profile_field_list :: "config \<Rightarrow> pstr list" where
  "social_profile_field_list cfg = map fst (social_profile_field_dict cfg)"

text \<open>
  A contact is a Python dict from canonical names to strings: an association list in
  insertion order, where assignment overwrites in place or appends
  (\<^const>\<open>AList.update\<close>) and \<^verbatim>\<open>pop\<close> removes the key (\<^const>\<open>AList.delete\<close>).
\<close>

type_synonym contact = "(pstr \<times> pstr) list"

record pstate =
  contacts_dict :: "(nat \<times> contact) list"
  contact_id :: nat
  listening_to_data :: bool
  contact_dict :: contact
  standard_count :: "pstr \<Rightarrow> nat"
  custom_count :: "pstr \<Rightarrow> nat"
  social_count :: "pstr \<Rightarrow> nat"
  key :: pstr
  key_previous :: pstr
  val :: pstr
  value_previous :: pstr
  last_symbol :: pstr

definition BEGIN_SYMBOL :: pstr where
  "BEGIN_SYMBOL = ustr ''N:''"

definition END_SYMBOL :: pstr where
  "END_SYMBOL = ustr ''END:''"

text \<open>
  The state before the first line. \<^verbatim>\<open>contact_dict\<close> is unbound in the source until the
  first record start; it is read only while \<^verbatim>\<open>listening_to_data\<close> holds, which a record
  start sets.
\<close>

definition init_state :: pstate where
  "init_state =
     \<lparr>contacts_dict = [], contact_id = 0, listening_to_data = False, contact_dict = [],
      standard_count = (\<lambda>_. 0), custom_count = (\<lambda>_. 0), social_count = (\<lambda>_. 0),
      key = BEGIN_SYMBOL, key_previous = BEGIN_SYMBOL,
      val = ustr ''Name'', value_previous = ustr ''Name'', last_symbol = []\<rparr>"

text \<open>\<^verbatim>\<open>d[k]\<close> on a dict raises KeyError on a missing key.\<close>

definition py_getitem :: "('k \<times> 'v) list \<Rightarrow> 'k \<Rightarrow> error + 'v" where
  "py_getitem d k = (case map_of d k of None \<Rightarrow> Inl KeyError | Some v \<Rightarrow> Inr v)"

definition add_contact ::
  "(nat \<times> contact) list \<Rightarrow> contact \<Rightarrow> nat \<Rightarrow> (nat \<times> contact) list \<times> contact \<times> nat \<times> bool" where
  "add_contact contacts contact cid = (AList.update cid contact contacts, contact, cid + 1, False)"

definition store_contact :: "pstate \<Rightarrow> pstate" where
  "store_contact st =
     (case add_contact (contacts_dict st) (contact_dict st) (contact_id st) of
        (contacts, contact, cid, listening) \<Rightarrow>
          st\<lparr>contacts_dict := contacts, contact_dict := contact, contact_id := cid,
             listening_to_data := listening\<rparr>)"

section \<open>Field decoding\<close>

text \<open>
  The occurrence bookkeeping that the standard, custom and social branches share: with the
  incremented counter \<open>count\<close> and the canonical name \<open>value\<close>, the second occurrence moves
  the bare entry to \<open>value_1\<close> (\<^verbatim>\<open>pop\<close> raises KeyError when it is missing), and every
  occurrence after the first is stored under \<open>value_count\<close>.
\<close>

definition disambiguate :: "nat \<Rightarrow> pstr \<Rightarrow> contact \<Rightarrow> error + (contact \<times> pstr)" where
  "disambiguate count value contact =
     (if count > 1 then
        ebind (if count = 2
               then ebind (py_getitem contact value)
                      (\<lambda>popped. Inr (AList.update (value @ ustr ''_1'') popped
                                       (AList.delete value contact)))
               else Inr contact)
          (\<lambda>contact'. Inr (contact', value @ ustr ''_'' @ py_str count))
      else Inr (contact, value))"

text \<open>The clean-up of note text, applied to the primary line and to each continuation.\<close>

definition note_translate :: "pstr \<Rightarrow> pstr" where
  "note_translate data =
     py_replace [92] [] (py_replace [92, 110] [10]
       (py_replace [8203] [] (py_replace [160] [] data)))"

definition decode_bday :: "pstr \<Rightarrow> pstr" where
  "decode_bday data =
     (if startswith data (ustr ''--'')
      then py_slice (Some 2) (Some 4) data @ ustr ''-'' @ py_slice (Some (-2)) None data
      else py_slice None (Some (-4)) data @ ustr ''-'' @ py_slice (Some (-4)) (Some (-2)) data
             @ ustr ''-'' @ py_slice (Some (-2)) None data)"

definition decode_photo :: "pstr \<Rightarrow> error + pstr" where
  "decode_photo data = py_last (py_split (ustr '','') data)"

text \<open>The two field-specific transforms at the end of the standard branch.\<close>

definition decode_photo_bday :: "pstr \<Rightarrow> pstr \<Rightarrow> error + pstr" where
  "decode_photo_bday k data =
     ebind (if k = ustr ''PHOTO'' then decode_photo data else Inr data)
       (\<lambda>data. Inr (if k = ustr ''BDAY'' then decode_bday data else data))"

text \<open>
  The value of a standard field line with raw key \<open>k\<close>: the decoded data and the new
  \<^verbatim>\<open>last_symbol\<close> (which only a note changes).
\<close>

definition decode_standard :: "pstr \<Rightarrow> pstr \<Rightarrow> pstr \<Rightarrow> error + (pstr \<times> pstr)" where
  "decode_standard k line last_sym =
     ebind (if k = ustr ''NOTE'' then py_last (py_split (ustr ''NOTE:'') line)
            else py_last (py_split (ustr '':'') line))
       (\<lambda>data.
     let data = (if startswith data (ustr '';;'') then py_slice (Some 2) None data else data) in
     ebind (if k \<noteq> ustr ''NOTE'' then ebind (py_nth line 0) (\<lambda>c. Inr (c \<noteq> 32)) else Inr False)
       (\<lambda>clean.
     let data = (if clean
                 then py_replace [59] (ustr '', '') (py_replace [59, 59] (ustr '', '')
                        (py_replace [92] [] (py_replace [10] [] data)))
                 else data);
         data = (if k = ustr ''ADR'' \<and> startswith data (ustr '', '')
                 then py_slice (Some 2) None data else data);
         data_sym =
           (if k = ustr ''NOTE''
            then (let data = (if int (length data) - 72 \<le> 0 \<and> py_slice (Some (-1)) None data = [10]
                              then py_slice None (Some (-1)) data else data)
                  in (note_translate data, py_slice (Some (-1)) None data))
            else (data, last_sym))
     in ebind (decode_photo_bday k (fst data_sym)) (\<lambda>data. Inr (data, snd data_sym))))"

text \<open>A continuation line of a note: the text to append and the new \<^verbatim>\<open>last_symbol\<close>.\<close>

definition note_continuation :: "pstr \<Rightarrow> pstr \<Rightarrow> pstr \<times> pstr" where
  "note_continuation line last_sym =
     (let line = py_slice (Some 1) None line;
          line = (if int (length line) - 75 \<le> 0 \<and> py_slice (Some (-1)) None line = [10]
                  then py_slice None (Some (-1)) line else line);
          first_symbol = py_slice (Some 0) (Some 2) line;
          line = (if last_sym = [92] \<and> first_symbol = ustr ''n ''
                  then [10] @ py_slice (Some 1) None line else line)
      in (note_translate line, py_slice (Some (-1)) None line))"


section \<open>The branches of the loop body\<close>

text \<open>
  A record-start line: \<^verbatim>\<open>line.split(':')[-1].split(';')\<close> indexed at 0 to 3; a name part is
  stored when it is not empty, the last name first.
\<close>

definition store_nonempty :: "pstr \<Rightarrow> pstr \<Rightarrow> contact \<Rightarrow> contact" where
  "store_nonempty name v c = (if length v > 0 then AList.update name v c else c)"

definition name_branch :: "pstr \<Rightarrow> pstate \<Rightarrow> error + pstate" where
  "name_branch line st =
     (if startswith line BEGIN_SYMBOL then
        ebind (py_last (py_split (ustr '':'') line)) (\<lambda>names.
        ebind (py_nth (py_split (ustr '';'') names) 0) (\<lambda>last_name.
        ebind (py_nth (py_split (ustr '';'') names) 1) (\<lambda>first_name.
        ebind (py_nth (py_split (ustr '';'') names) 2) (\<lambda>middle_name_1.
        ebind (py_nth (py_split (ustr '';'') names) 3) (\<lambda>middle_name_2.
        Inr (st\<lparr>contact_dict :=
               store_nonempty (ustr ''Middle Name 2'') middle_name_2
                 (store_nonempty (ustr ''Middle Name 1'') middle_name_1
                   (store_nonempty (ustr ''First Name'') first_name
                     (store_nonempty (ustr ''Last Name'') last_name (contact_dict st))))\<rparr>))))))
      else Inr st)"

definition is_standard :: "config \<Rightarrow> pstr \<Rightarrow> bool" where
  "is_standard cfg line = startswith_any line (standard_field_list cfg)"

definition standard_branch :: "config \<Rightarrow> pstr \<Rightarrow> pstate \<Rightarrow> error + pstate" where
  "standard_branch cfg line st =
     (if is_standard cfg line then
        ebind (py_nth (re_split_colon_semicolon line) 0) (\<lambda>k.
        ebind (py_getitem (standard_field_dict cfg) k) (\<lambda>value.
        let count = standard_count st k + 1 in
        ebind (disambiguate count value (contact_dict st)) (\<lambda>(c, value).
        ebind (decode_standard k line (last_symbol st)) (\<lambda>(data, last_sym).
        Inr (st\<lparr>contact_dict := AList.update value data c,
                standard_count := (standard_count st)(k := count),
                key := k, val := value, key_previous := k, value_previous := value,
                last_symbol := last_sym\<rparr>)))))
      else Inr st)"

definition is_custom :: "config \<Rightarrow> pstr \<Rightarrow> bool" where
  "is_custom cfg line =
     (contains (ustr ''X-CUSTOM'') line \<and> list_ex (\<lambda>f. contains f line) (custom_field_list cfg))"

definition custom_branch :: "config \<Rightarrow> pstr \<Rightarrow> pstate \<Rightarrow> error + pstate" where
  "custom_branch cfg line st =
     (if is_custom cfg line then
        let k = (case List.find (\<lambda>f. py_find f line \<noteq> None) (custom_field_list cfg) of
                   Some f \<Rightarrow> f | None \<Rightarrow> key st) in
        ebind (py_getitem (custom_field_dict cfg) k) (\<lambda>value.
        let count = custom_count st k + 1 in
        ebind (disambiguate count value (contact_dict st)) (\<lambda>(c, value).
        ebind (py_last (py_split (ustr ''-=+=-'') line)) (\<lambda>data.
        let data = py_replace [10] [] data in
        Inr (st\<lparr>contact_dict := AList.update value data c,
                custom_count := (custom_count st)(k := count),
                key := k, val := value, key_previous := k, value_previous := value\<rparr>))))
      else Inr st)"

definition is_social :: "config \<Rightarrow> pstr \<Rightarrow> bool" where
  "is_social cfg line =
     (contains (ustr ''X-SOCIALPROFILE'') line
      \<and> list_ex (\<lambda>f. contains f line) (social_profile_field_list cfg))"

definition social_branch :: "config \<Rightarrow> pstr \<Rightarrow> pstate \<Rightarrow> error + pstate" where
  "social_branch cfg line st =
     (if is_social cfg line then
        ebind (py_nth (py_split (ustr '';'') line) 1) (\<lambda>seg.
        ebind (py_nth (py_split (ustr '':'') seg) 0) (\<lambda>typ.
        let k = py_replace (ustr ''TYPE='') [] typ in
        ebind (py_getitem (social_profile_field_dict cfg) k) (\<lambda>value.
        let count = social_count st k + 1 in
        ebind (disambiguate count value (contact_dict st)) (\<lambda>(c, value).
        ebind (py_last (py_split (ustr '';'') line)) (\<lambda>last_seg.
        ebind (py_nth (py_split (ustr '':'') last_seg) 0) (\<lambda>label.
        let pref_to_remove = label @ ustr '':'';
            data = py_replace [10] [] (py_replace pref_to_remove [] last_seg) in
        Inr (st\<lparr>contact_dict := AList.update value data c,
                social_count := (social_count st)(k := count),
                key := k, val := value, key_previous := k, value_previous := value\<rparr>)))))))
      else Inr st)"

text \<open>
  Unfinished lines. The test reads \<^verbatim>\<open>key_previous\<close> as the branches above left it, and
  \<^verbatim>\<open>line[0]\<close> is evaluated only when the previous key may fold.
\<close>

definition may_fold :: "config \<Rightarrow> pstr \<Rightarrow> bool" where
  "may_fold cfg kp =
     (kp = ustr ''ADR'' \<or> kp = ustr ''NOTE'' \<or> kp = ustr ''PHOTO'' \<or> kp = ustr ''CATEGORIES''
      \<or> kp \<in> set (social_profile_field_list cfg))"

definition continuation_branch :: "config \<Rightarrow> pstr \<Rightarrow> pstate \<Rightarrow> error + pstate" where
  "continuation_branch cfg line st =
     (if may_fold cfg (key_previous st) then
        ebind (py_nth line 0) (\<lambda>c0.
        if c0 = 32 then
          let kp = key_previous st;
              line_sym = (if kp = ustr ''NOTE'' then note_continuation line (last_symbol st)
                          else (line, last_symbol st));
              line = fst line_sym;
              line = (if kp = ustr ''ADR'' \<or> kp = ustr ''PHOTO'' \<or> kp = ustr ''CATEGORIES''
                         \<or> kp \<in> set (social_profile_field_list cfg)
                      then py_replace [10] [] (py_slice (Some 1) None line) else line)
          in ebind (py_getitem (contact_dict st) (value_previous st)) (\<lambda>old.
             Inr (st\<lparr>contact_dict := AList.update (value_previous st) (old @ line) (contact_dict st),
                     last_symbol := snd line_sym\<rparr>))
        else Inr st)
      else Inr st)"

text \<open>The body of \<^verbatim>\<open>if listening_to_data:\<close>: the five tests run one after the other.\<close>

definition data_branches :: "config \<Rightarrow> pstr \<Rightarrow> pstate \<Rightarrow> error + pstate" where
  "data_branches cfg line st =
     (if listening_to_data st then
        ebind (name_branch line st) (\<lambda>st.
        ebind (standard_branch cfg line st) (\<lambda>st.
        ebind (custom_branch cfg line st) (\<lambda>st.
        ebind (social_branch cfg line st) (\<lambda>st.
        continuation_branch cfg line st))))
      else Inr st)"

section \<open>Record start, record end and the loop\<close>

definition begin_record :: "pstate \<Rightarrow> pstate" where
  "begin_record st =
     st\<lparr>listening_to_data := True, contact_dict := [], key := BEGIN_SYMBOL,
        key_previous := BEGIN_SYMBOL,
        standard_count := (\<lambda>_. 0), custom_count := (\<lambda>_. 0), social_count := (\<lambda>_. 0)\<rparr>"

text \<open>
  The record-end block either ends the iteration (\<^verbatim>\<open>continue\<close>) or, when the operator is
  neither \<^verbatim>\<open>&\<close> nor \<^verbatim>\<open>|\<close>, falls through to the data branches.
\<close>

datatype flow = Continue pstate | Fallthrough pstate

definition record_end :: "config \<Rightarrow> pstate \<Rightarrow> error + flow" where
  "record_end cfg st =
     (if length (tag_list cfg) > 0 then
        if map_of (contact_dict st) (ustr ''Tags'') = None
        then Inr (Continue (st\<lparr>listening_to_data := False\<rparr>))
        else
          ebind (py_getitem (standard_field_dict cfg) (ustr ''CATEGORIES'')) (\<lambda>tag_value.
          ebind (py_getitem (contact_dict st) tag_value) (\<lambda>tags.
          let contact_tags = py_split (ustr '','') tags in
          if logic_op cfg = ustr ''&'' then
            if \<not> list_all (\<lambda>tag. tag \<in> set contact_tags) (tag_list cfg)
            then Inr (Continue (st\<lparr>listening_to_data := False\<rparr>))
            else Inr (Continue (store_contact st))
          else if logic_op cfg = ustr ''|'' then
            if \<not> list_ex (\<lambda>tag. tag \<in> set contact_tags) (tag_list cfg)
            then Inr (Continue (st\<lparr>listening_to_data := False\<rparr>))
            else Inr (Continue (store_contact st))
          else Inr (Fallthrough st)))
      else Inr (Continue (store_contact st)))"

definition step :: "config \<Rightarrow> pstr \<Rightarrow> pstate \<Rightarrow> error + pstate" where
  "step cfg line st =
     (let st = (if startswith line BEGIN_SYMBOL then begin_record st else st) in
      if startswith line END_SYMBOL \<and> listening_to_data st then
        ebind (record_end cfg st) (\<lambda>fl.
          case fl of Continue st \<Rightarrow> Inr st | Fallthrough st \<Rightarrow> data_branches cfg line st)
      else data_branches cfg line st)"

fun run :: "config \<Rightarrow> pstate \<Rightarrow> pstr list \<Rightarrow> error + pstate" where
  "run cfg st [] = Inr st"
| "run cfg st (line # rest) =
     (case step cfg line st of Inl e \<Rightarrow> Inl e | Inr st' \<Rightarrow> run cfg st' rest)"

text \<open>The parse of a whole file: the contacts accepted when the input ends.\<close>

definition parse :: "config \<Rightarrow> pstr list \<Rightarrow> error + (nat \<times> contact) list" where
  "parse cfg lines = ebind (run cfg init_state lines) (\<lambda>st. Inr (contacts_dict st))"

section \<open>First-match classification\<close>





section \<open>Example input\<close>

definition example_config :: config where
  "example_config =
     \<lparr>standard_field_dict =
        [(ustr ''TEL'', ustr ''Phone''), (ustr ''NOTE'', ustr ''Note''),
         (ustr ''BDAY'', ustr ''Birthday''), (ustr ''CATEGORIES'', ustr ''Tags''),
         (ustr ''ADR'', ustr ''Address''), (ustr ''PHOTO'', ustr ''Picture'')],
      custom_field_dict = [(ustr ''Gender'', ustr ''Gender'')],
      social_profile_field_dict = [(ustr ''twitter'', ustr ''Twitter'')],
      tag_list = [ustr ''B'', ustr ''D''],
      logic_op = ustr ''|''\<rparr>"

text \<open>The contact in progress, and one of its fields, after a run or a step.\<close>

definition contact_of :: "error + pstate \<Rightarrow> contact option" where
  "contact_of r = (case r of Inl e \<Rightarrow> None | Inr st \<Rightarrow> Some (contact_dict st))"

definition field_of :: "error + pstate \<Rightarrow> pstr \<Rightarrow> pstr option" where
  "field_of r name = (case r of Inl e \<Rightarrow> None | Inr st \<Rightarrow> map_of (contact_dict st) name)"

text \<open>
  Three records, the second without tags, and a fourth that the input leaves open.
\<close>

definition example_input :: "pstr list" where
  "example_input =
     [ustr ''N:Doe;John;;;'' @ [10], ustr ''CATEGORIES:A,B,C'' @ [10], ustr ''END:VCARD'' @ [10],
      ustr ''N:Roe;Jane;;;'' @ [10], ustr ''END:VCARD'' @ [10],
      ustr ''N:Poe;Max;;;'' @ [10], ustr ''CATEGORIES:D'' @ [10], ustr ''END:VCARD'' @ [10]]"

definition example_open :: "pstr list" where
  "example_open = [ustr ''N:Low;Kim;;;'' @ [10], ustr ''CATEGORIES:B'' @ [10]]"

text \<open>A record whose note is folded after a backslash.\<close>

definition example_note :: "pstr list" where
  "example_note = [ustr ''N:Doe;John;;;'' @ [10], ustr ''NOTE:Hello '' @ [92, 10]]"

definition example_note_continuation :: pstr where
  "example_note_continuation = ustr '' n world'' @ [10]"


section \<open>Names of repeated fields\<close>

text \<open>
  The vocabulary for the entries of one canonical name in a contact: the name that
  \<^verbatim>\<open>value+'_'+str(count)\<close> builds, the bare name together with all its suffixed forms, and
  the entries that \<open>c\<close> occurrences leave.
\<close>

definition suffixed :: "pstr \<Rightarrow> nat \<Rightarrow> pstr" where
  "suffixed value n = value @ ustr ''_'' @ py_str n"

definition family :: "pstr \<Rightarrow> pstr set" where
  "family value = insert value (range (suffixed value))"

definition field_entries :: "nat \<Rightarrow> pstr \<Rightarrow> pstr set" where
  "field_entries c value =
     (if c = 0 then {} else if c = 1 then {value} else suffixed value ` {1..c})"

text \<open>
  The tables used with the parser keep canonical names apart: no name occurs twice in
  the three tables, none contains an underscore, and none is one of the four name fields.
\<close>

definition name_fields :: "pstr list" where
  "name_fields =
     [ustr ''Last Name'', ustr ''First Name'', ustr ''Middle Name 1'', ustr ''Middle Name 2'']"

definition canonical_names :: "config \<Rightarrow> pstr list" where
  "canonical_names cfg =
     map snd (standard_field_dict cfg @ custom_field_dict cfg @ social_profile_field_dict cfg)"

definition clean_names :: "config \<Rightarrow> bool" where
  "clean_names cfg \<longleftrightarrow>
     distinct (canonical_names cfg)
     \<and> list_all (\<lambda>v. 95 \<notin> set v \<and> v \<notin> set name_fields) (canonical_names cfg)"

text \<open>
  The entries of every canonical name agree with its occurrence counter, in each of the
  three tables.
\<close>

definition counted :: "pstr set \<Rightarrow> (pstr \<times> pstr) list \<Rightarrow> (pstr \<Rightarrow> nat) \<Rightarrow> bool" where
  "counted K table count \<longleftrightarrow>
     (\<forall>k v. map_of table k = Some v \<longrightarrow> K \<inter> family v = field_entries (count k) v)"

definition entries_inv :: "config \<Rightarrow> pstate \<Rightarrow> bool" where
  "entries_inv cfg st \<longleftrightarrow>
     counted (fst ` set (contact_dict st)) (standard_field_dict cfg) (standard_count st)
     \<and> counted (fst ` set (contact_dict st)) (custom_field_dict cfg) (custom_count st)
     \<and> counted (fst ` set (contact_dict st)) (social_profile_field_dict cfg) (social_count st)"

text \<open>A record with the same raw key on two lines.\<close>

definition example_repeated :: "pstr list" where
  "example_repeated =
     [ustr ''N:Doe;John;;;'' @ [10], ustr ''TEL:111'' @ [10], ustr ''TEL:222'' @ [10]]"

text \<open>The keys of a contact after one more occurrence of a name with \<open>c\<close> earlier ones.\<close>

definition stored_keys :: "nat \<Rightarrow> pstr \<Rightarrow> pstr set \<Rightarrow> pstr set" where
  "stored_keys c value K =
     (if c = 0 then insert value K
      else if c = 1 then insert (suffixed value 2) (insert (suffixed value 1) (K - {value}))
      else insert (suffixed value (Suc c)) K)"

text \<open>
  What \<open>c\<close> occurrences (at least two) of a canonical name leave in a contact: the
  suffixed entries \<open>_1\<close> to \<open>_c\<close>, \<open>c\<close> entries in all, and no bare entry.
\<close>

definition archived :: "contact \<Rightarrow> pstr \<Rightarrow> nat \<Rightarrow> bool" where
  "archived contact value c \<longleftrightarrow>
     fst ` set contact \<inter> family value = suffixed value ` {1..c}
     \<and> card (fst ` set contact \<inter> family value) = c
     \<and> map_of contact value = None"

text \<open>
  An open record with a line that begins with the standard key \<open>TEL\<close> but whose key
  text, \<open>TELEX\<close>, is not in the table.
\<close>

definition example_open_failing :: "pstr list" where
  "example_open_failing = [ustr ''N:Low;Kim;;;'' @ [10], ustr ''TELEX:1'' @ [10]]"

section \<open>Facts about the string operations\<close>

lemma ustr_simps:
  "ustr [] = []" "ustr (c # cs) = of_char c # ustr cs"
  by (simp_all add: ustr_def)

lemma prefix_take_eq: "prefix p s \<longleftrightarrow> take (length p) s = p"
proof
  assume "prefix p s"
  then obtain zs where "s = p @ zs" by (auto simp: prefix_def)
  then show "take (length p) s = p" by simp
next
  assume "take (length p) s = p"
  then show "prefix p s" by (metis take_is_prefix)
qed

lemma slice_from: "0 \<le> i \<Longrightarrow> py_slice (Some i) None s = drop (nat i) s"
  by (auto simp: py_slice_def norm_idx_def min_def Let_def)

lemma slice_tail: "i < 0 \<Longrightarrow> py_slice (Some i) None s = drop (length s - nat (- i)) s"
proof -
  assume neg: "i < 0"
  then have "nat (max 0 (int (length s) + i)) = length s - nat (- i)" by linarith
  with neg show ?thesis by (simp add: py_slice_def norm_idx_def Let_def)
qed

lemma slice_init: "j < 0 \<Longrightarrow> py_slice None (Some j) s = take (length s - nat (- j)) s"
proof -
  assume neg: "j < 0"
  then have "nat (max 0 (int (length s) + j)) = length s - nat (- j)" by linarith
  with neg show ?thesis by (simp add: py_slice_def norm_idx_def Let_def)
qed

lemma slice_mid_neg:
  "i < 0 \<Longrightarrow> j < 0 \<Longrightarrow>
   py_slice (Some i) (Some j) s = drop (length s - nat (- i)) (take (length s - nat (- j)) s)"
proof -
  assume neg: "i < 0" "j < 0"
  then have "nat (max 0 (int (length s) + i)) = length s - nat (- i)"
    "nat (max 0 (int (length s) + j)) = length s - nat (- j)" by linarith+
  with neg show ?thesis by (simp add: py_slice_def norm_idx_def Let_def)
qed

lemma slice_mid:
  "0 \<le> i \<Longrightarrow> 0 \<le> j \<Longrightarrow> py_slice (Some i) (Some j) s = drop (nat i) (take (nat j) s)"
  by (auto simp: py_slice_def norm_idx_def min_def Let_def)

lemma py_split_not_Nil: "py_split sep s \<noteq> []"
  by (induction sep s rule: py_split.induct) (auto split: list.splits)

lemma py_last_split: "py_last (py_split sep s) = Inr (last (py_split sep s))"
  by (simp add: py_last_def py_split_not_Nil)

lemma begin_not_end: "startswith line BEGIN_SYMBOL \<Longrightarrow> \<not> startswith line END_SYMBOL"
  by (cases line) (auto simp: startswith_def BEGIN_SYMBOL_def END_SYMBOL_def ustr_simps)

text \<open>The definitions that evaluate a run on a concrete input.\<close>

lemmas eval_defs = example_config_def init_state_def step_def begin_record_def
  data_branches_def name_branch_def standard_branch_def custom_branch_def social_branch_def
  continuation_branch_def record_end_def store_contact_def add_contact_def is_standard_def
  is_custom_def is_social_def startswith_def startswith_any_def BEGIN_SYMBOL_def END_SYMBOL_def
  ustr_simps ebind_def py_last_def py_nth_def py_getitem_def store_nonempty_def contains_def
  standard_field_list_def custom_field_list_def social_profile_field_list_def may_fold_def
  disambiguate_def decode_standard_def decode_photo_bday_def decode_photo_def decode_bday_def
  slice_from slice_tail slice_init slice_mid slice_mid_neg Let_def
  note_translate_def note_continuation_def field_of_def contact_of_def

section \<open>Birthday and photo decoding\<close>

text \<open>
  C5. A birthday value that begins with two dashes decodes to the two characters after
  them, a dash and the last two characters; any other value decodes to all but its last
  four characters, a dash, the two characters between the last four and the last two, a
  dash and the last two characters. So \<open>--0615\<close> becomes \<open>06-15\<close> and \<open>19900615\<close>
  becomes \<open>1990-06-15\<close>.
\<close>

theorem bday_decoding:
  "decode_bday data =
     (if take 2 data = ustr ''--''
      then take 2 (drop 2 data) @ ustr ''-'' @ drop (length data - 2) data
      else take (length data - 4) data @ ustr ''-''
             @ drop (length data - 4) (take (length data - 2) data) @ ustr ''-''
             @ drop (length data - 2) data)
   \<and> decode_bday (ustr ''--0615'') = ustr ''06-15''
   \<and> decode_bday (ustr ''19900615'') = ustr ''1990-06-15''"
proof -
  have len: "length (ustr ''--'') = 2" by (simp add: ustr_simps)
  have gen: "decode_bday data =
     (if take 2 data = ustr ''--''
      then take 2 (drop 2 data) @ ustr ''-'' @ drop (length data - 2) data
      else take (length data - 4) data @ ustr ''-''
             @ drop (length data - 4) (take (length data - 2) data) @ ustr ''-''
             @ drop (length data - 2) data)"
    unfolding decode_bday_def startswith_def prefix_take_eq len
    by (simp add: slice_from slice_tail slice_init slice_mid_neg slice_mid drop_take)
  have e1: "decode_bday (ustr ''--0615'') = ustr ''06-15''"
    by (simp add: decode_bday_def ustr_simps startswith_def py_slice_def norm_idx_def)
  have e2: "decode_bday (ustr ''19900615'') = ustr ''1990-06-15''"
    by (simp add: decode_bday_def ustr_simps startswith_def py_slice_def norm_idx_def)
  from gen e1 e2 show ?thesis by blast
qed

theorem bday_decoding_witness:
  "decode_bday (ustr ''20010203'') = ustr ''2001-02-03''"
  using bday_decoding [of "ustr ''20010203''"] by (simp add: ustr_simps)

lemma decode_photo_bday_Inr:
  "decode_photo_bday k data
     = Inr (if k = ustr ''BDAY''
            then decode_bday (if k = ustr ''PHOTO'' then last (py_split (ustr '','') data) else data)
            else if k = ustr ''PHOTO'' then last (py_split (ustr '','') data) else data)"
  by (simp add: decode_photo_bday_def decode_photo_def py_last_split ebind_def)

text \<open>
  C9. The photo and birthday transforms of the standard branch return a string for every
  raw key and every value, also an empty or a short one: the index \<^verbatim>\<open>[-1]\<close> into the
  split never fails, since a split is never empty, and slices do not raise. So the whole
  value of a standard field line decodes without an exception for every non-empty line.
\<close>

theorem photo_bday_total:
  "(\<exists>r. decode_photo_bday k data = Inr r)
   \<and> (line \<noteq> [] \<longrightarrow> (\<exists>r. decode_standard k line lsym = Inr r))"
proof -
  have a: "\<exists>r. decode_photo_bday k d = Inr r" for d
    by (simp add: decode_photo_bday_Inr)
  have b: "\<exists>r. decode_standard k line lsym = Inr r" if "line \<noteq> []"
  proof -
    from that have nth: "py_nth line 0 = Inr (hd line)"
      by (cases line) (simp_all add: py_nth_def)
    show ?thesis
      unfolding decode_standard_def py_last_split nth
      by (simp add: ebind_def Let_def decode_photo_bday_Inr)
  qed
  from a b show ?thesis by blast
qed

theorem photo_bday_total_witness:
  "decode_photo_bday (ustr ''BDAY'') [] = Inr (ustr ''--'')
   \<and> decode_photo_bday (ustr ''PHOTO'') [] = Inr []
   \<and> decode_standard (ustr ''BDAY'') (ustr ''BDAY:615'' @ [10]) [] = Inr (ustr ''-6-15'', [])"
  using photo_bday_total [of "ustr ''BDAY''" "[]" "ustr ''BDAY:615'' @ [10]" "[]"]
  by (simp add: decode_standard_def decode_photo_bday_def decode_photo_def decode_bday_def
      ebind_def py_last_def py_nth_def ustr_simps startswith_def slice_from slice_tail slice_init
      slice_mid slice_mid_neg Let_def)

section \<open>Record start\<close>

text \<open>
  C10. On a record-start line the name initialisation indexes the four first
  semicolon-separated segments of the text after the last colon. With fewer than four
  segments it raises IndexError, and so does the whole iteration; with four or more it
  returns a state.
\<close>

theorem name_init:
  assumes "startswith line BEGIN_SYMBOL"
  shows "(length (py_split (ustr '';'') (last (py_split (ustr '':'') line))) < 4
            \<longrightarrow> name_branch line st = Inl IndexError \<and> step cfg line st = Inl IndexError)
       \<and> (4 \<le> length (py_split (ustr '';'') (last (py_split (ustr '':'') line)))
            \<longrightarrow> (\<exists>st'. name_branch line st = Inr st'))"
proof -
  let ?parts = "py_split (ustr '';'') (last (py_split (ustr '':'') line))"
  have ne: "?parts \<noteq> []" by (rule py_split_not_Nil)
  have fail: "name_branch line st' = Inl IndexError" if "length ?parts < 4" for st'
    using that assms ne
    by (auto simp: name_branch_def py_last_split ebind_def py_nth_def)
  have ok: "\<exists>st'. name_branch line st = Inr st'" if "4 \<le> length ?parts"
    using that assms
    by (auto simp: name_branch_def py_last_split ebind_def py_nth_def Let_def)
  have st: "step cfg line st = Inl IndexError" if "length ?parts < 4"
    using fail[OF that, of "begin_record st"] assms begin_not_end[OF assms]
    by (simp add: step_def data_branches_def begin_record_def ebind_def)
  from fail ok st show ?thesis by blast
qed

theorem name_init_witness:
  "startswith (ustr ''N:Doe;John'' @ [10]) BEGIN_SYMBOL
   \<and> step example_config (ustr ''N:Doe;John'' @ [10]) init_state = Inl IndexError"
  using name_init [of "ustr ''N:Doe;John'' @ [10]" init_state example_config]
  by (simp add: startswith_def BEGIN_SYMBOL_def ustr_simps)

section \<open>Record end and the tag filter\<close>

lemma end_not_begin: "startswith line END_SYMBOL \<Longrightarrow> \<not> startswith line BEGIN_SYMBOL"
  using begin_not_end by blast

lemma step_end:
  "listening_to_data st \<Longrightarrow> startswith line END_SYMBOL \<Longrightarrow>
   step cfg line st =
     ebind (record_end cfg st)
       (\<lambda>fl. case fl of Continue st \<Rightarrow> Inr st | Fallthrough st \<Rightarrow> data_branches cfg line st)"
  by (simp add: step_def end_not_begin)

text \<open>
  C7. At a record-end line of an open record, with a non-empty list of requested tags, a
  contact without the key \<open>Tags\<close> is dropped: the only change is that the parser
  stops listening. The contact store and the identifier counter stay as they were, and
  neither the field tables nor the operator are consulted, so the tag test is not run.
\<close>

theorem missing_tags_discarded:
  assumes "listening_to_data st" and "startswith line END_SYMBOL"
    and "tag_list cfg \<noteq> []" and "map_of (contact_dict st) (ustr ''Tags'') = None"
  shows "step cfg line st = Inr (st\<lparr>listening_to_data := False\<rparr>)"
  using assms by (simp add: step_end record_end_def ebind_def)

theorem missing_tags_discarded_witness:
  "step example_config (ustr ''END:VCARD'' @ [10]) (begin_record init_state)
     = Inr ((begin_record init_state)\<lparr>listening_to_data := False\<rparr>)"
  using missing_tags_discarded
    [of "begin_record init_state" "ustr ''END:VCARD'' @ [10]" example_config]
  by (simp add: begin_record_def init_state_def example_config_def startswith_def
      END_SYMBOL_def ustr_simps)

text \<open>
  C4. At a record-end line of an open record: with no requested tag the contact is
  stored. Otherwise, for a contact that has the key \<open>Tags\<close>, the tags field is split
  on commas; under \<open>&\<close> the contact is stored exactly when every requested tag is one
  of the pieces, under \<open>|\<close> exactly when some requested tag is one of them, and it is
  dropped otherwise. Pieces and tags are compared as they are.
\<close>

theorem tag_filter:
  assumes "listening_to_data st" and "startswith line END_SYMBOL"
  shows "(tag_list cfg = [] \<longrightarrow> step cfg line st = Inr (store_contact st))
       \<and> (tag_list cfg \<noteq> [] \<and> map_of (contact_dict st) (ustr ''Tags'') \<noteq> None
            \<and> map_of (standard_field_dict cfg) (ustr ''CATEGORIES'') = Some tag_value
            \<and> map_of (contact_dict st) tag_value = Some tags
          \<longrightarrow> (logic_op cfg = ustr ''&'' \<longrightarrow>
                 step cfg line st =
                   Inr (if set (tag_list cfg) \<subseteq> set (py_split (ustr '','') tags)
                        then store_contact st else st\<lparr>listening_to_data := False\<rparr>))
            \<and> (logic_op cfg = ustr ''|'' \<longrightarrow>
                 step cfg line st =
                   Inr (if set (tag_list cfg) \<inter> set (py_split (ustr '','') tags) \<noteq> {}
                        then store_contact st else st\<lparr>listening_to_data := False\<rparr>)))"
proof -
  have all_iff: "list_all (\<lambda>tag. tag \<in> set ys) xs \<longleftrightarrow> set xs \<subseteq> set ys" for xs ys :: "pstr list"
    by (auto simp: list_all_iff)
  have ex_iff: "list_ex (\<lambda>tag. tag \<in> set ys) xs \<longleftrightarrow> set xs \<inter> set ys \<noteq> {}" for xs ys :: "pstr list"
    by (auto simp: list_ex_iff)
  have neq: "ustr ''|'' \<noteq> ustr ''&''" by (simp add: ustr_simps)
  show ?thesis
    using assms neq
    by (auto simp: step_end record_end_def ebind_def py_getitem_def all_iff ex_iff Let_def)
qed

theorem tag_filter_witness:
  "step example_config (ustr ''END:VCARD'' @ [10])
     ((begin_record init_state)\<lparr>contact_dict := [(ustr ''Tags'', ustr ''A,B,C'')]\<rparr>)
     = Inr (store_contact ((begin_record init_state)\<lparr>contact_dict := [(ustr ''Tags'', ustr ''A,B,C'')]\<rparr>))
   \<and> step (example_config\<lparr>logic_op := ustr ''&''\<rparr>) (ustr ''END:VCARD'' @ [10])
     ((begin_record init_state)\<lparr>contact_dict := [(ustr ''Tags'', ustr ''A,B,C'')]\<rparr>)
     = Inr ((begin_record init_state)\<lparr>contact_dict := [(ustr ''Tags'', ustr ''A,B,C'')],
              listening_to_data := False\<rparr>)"
  using tag_filter [of "(begin_record init_state)\<lparr>contact_dict := [(ustr ''Tags'', ustr ''A,B,C'')]\<rparr>"
      "ustr ''END:VCARD'' @ [10]" example_config "ustr ''Tags''" "ustr ''A,B,C''"]
    tag_filter [of "(begin_record init_state)\<lparr>contact_dict := [(ustr ''Tags'', ustr ''A,B,C'')]\<rparr>"
      "ustr ''END:VCARD'' @ [10]" "example_config\<lparr>logic_op := ustr ''&''\<rparr>" "ustr ''Tags''" "ustr ''A,B,C''"]
  by (simp add: begin_record_def init_state_def example_config_def startswith_def
      END_SYMBOL_def ustr_simps)

section \<open>The store is touched at record ends only\<close>

lemma ebind_Inr_iff: "ebind m f = Inr y \<longleftrightarrow> (\<exists>x. m = Inr x \<and> f x = Inr y)"
  by (cases m) (auto simp: ebind_def)

lemma name_branch_store:
  "name_branch line st = Inr st' \<Longrightarrow>
   contacts_dict st' = contacts_dict st \<and> contact_id st' = contact_id st
   \<and> listening_to_data st' = listening_to_data st"
  by (auto simp: name_branch_def ebind_Inr_iff split: if_splits)

lemma standard_branch_store:
  "standard_branch cfg line st = Inr st' \<Longrightarrow>
   contacts_dict st' = contacts_dict st \<and> contact_id st' = contact_id st
   \<and> listening_to_data st' = listening_to_data st"
  by (auto simp: standard_branch_def ebind_Inr_iff Let_def split: if_splits)

lemma custom_branch_store:
  "custom_branch cfg line st = Inr st' \<Longrightarrow>
   contacts_dict st' = contacts_dict st \<and> contact_id st' = contact_id st
   \<and> listening_to_data st' = listening_to_data st"
  by (auto simp: custom_branch_def ebind_Inr_iff Let_def split: if_splits)

lemma social_branch_store:
  "social_branch cfg line st = Inr st' \<Longrightarrow>
   contacts_dict st' = contacts_dict st \<and> contact_id st' = contact_id st
   \<and> listening_to_data st' = listening_to_data st"
  by (auto simp: social_branch_def ebind_Inr_iff Let_def split: if_splits)

lemma continuation_branch_store:
  "continuation_branch cfg line st = Inr st' \<Longrightarrow>
   contacts_dict st' = contacts_dict st \<and> contact_id st' = contact_id st
   \<and> listening_to_data st' = listening_to_data st"
  by (auto simp: continuation_branch_def ebind_Inr_iff Let_def split: if_splits)

lemma data_branches_store:
  assumes "data_branches cfg line st = Inr st'"
  shows "contacts_dict st' = contacts_dict st \<and> contact_id st' = contact_id st
   \<and> listening_to_data st' = listening_to_data st"
proof (cases "listening_to_data st")
  case False
  with assms show ?thesis by (simp add: data_branches_def)
next
  case True
  with assms obtain s1 s2 s3 s4 where
    "name_branch line st = Inr s1" "standard_branch cfg line s1 = Inr s2"
    "custom_branch cfg line s2 = Inr s3" "social_branch cfg line s3 = Inr s4"
    "continuation_branch cfg line s4 = Inr st'"
    by (auto simp: data_branches_def ebind_Inr_iff)
  then show ?thesis
    using name_branch_store[of line st s1] standard_branch_store[of cfg line s1 s2]
      custom_branch_store[of cfg line s2 s3] social_branch_store[of cfg line s3 s4]
      continuation_branch_store[of cfg line s4 st'] by simp
qed

lemma record_end_cases:
  assumes "record_end cfg st = Inr fl"
  shows "fl = Fallthrough st \<or> fl = Continue (st\<lparr>listening_to_data := False\<rparr>)
         \<or> fl = Continue (store_contact st)"
  using assms
  by (auto simp: record_end_def ebind_Inr_iff Let_def split: if_splits)

lemma store_contact_simps:
  "contacts_dict (store_contact st) = AList.update (contact_id st) (contact_dict st) (contacts_dict st)"
  "contact_id (store_contact st) = contact_id st + 1"
  "listening_to_data (store_contact st) = False"
  "contact_dict (store_contact st) = contact_dict st"
  by (simp_all add: store_contact_def add_contact_def)

lemma step_store:
  assumes "step cfg line st = Inr st'"
  shows "(contacts_dict st' = contacts_dict st \<and> contact_id st' = contact_id st)
       \<or> (startswith line END_SYMBOL \<and> listening_to_data st
          \<and> contacts_dict st' = AList.update (contact_id st) (contact_dict st) (contacts_dict st)
          \<and> contact_id st' = contact_id st + 1)"
proof (cases "startswith line BEGIN_SYMBOL")
  case True
  then have "data_branches cfg line (begin_record st) = Inr st'"
    using assms begin_not_end[OF True] by (simp add: step_def)
  from data_branches_store[OF this] show ?thesis by (simp add: begin_record_def)
next
  case nb: False
  show ?thesis
  proof (cases "startswith line END_SYMBOL \<and> listening_to_data st")
    case False
    then have "data_branches cfg line st = Inr st'"
      using assms nb by (auto simp: step_def)
    from data_branches_store[OF this] show ?thesis by simp
  next
    case True
    then obtain fl where fl: "record_end cfg st = Inr fl"
      and rest: "(case fl of Continue s \<Rightarrow> Inr s | Fallthrough s \<Rightarrow> data_branches cfg line s) = Inr st'"
      using assms nb by (auto simp: step_def ebind_Inr_iff)
    from record_end_cases[OF fl] show ?thesis
    proof (elim disjE)
      assume "fl = Fallthrough st"
      with rest have "data_branches cfg line st = Inr st'" by simp
      from data_branches_store[OF this] show ?thesis by simp
    next
      assume "fl = Continue (st\<lparr>listening_to_data := False\<rparr>)"
      with rest show ?thesis by auto
    next
      assume "fl = Continue (store_contact st)"
      with rest True show ?thesis by (auto simp: store_contact_simps)
    qed
  qed
qed

lemma update_fresh: "k \<notin> fst ` set al \<Longrightarrow> AList.update k v al = al @ [(k, v)]"
  by (induction al) auto

lemma run_append:
  "run cfg st (ls @ ls') = ebind (run cfg st ls) (\<lambda>s. run cfg s ls')"
  by (induction ls arbitrary: st) (auto simp: ebind_def split: sum.splits)

lemma run_snoc:
  "run cfg st (ls @ [l]) = ebind (run cfg st ls) (step cfg l)"
  by (simp add: run_append ebind_def split: sum.splits)

lemma run_store_inv:
  "run cfg init_state ls = Inr st \<Longrightarrow> map fst (contacts_dict st) = [0..<contact_id st]"
proof (induction ls arbitrary: st rule: rev_induct)
  case Nil
  then show ?case by (auto simp: init_state_def)
next
  case (snoc l ls)
  then obtain s where s: "run cfg init_state ls = Inr s" and st: "step cfg l s = Inr st"
    by (auto simp: run_snoc ebind_Inr_iff)
  from snoc.IH[OF s] have inv: "map fst (contacts_dict s) = [0..<contact_id s]" .
  then have fresh: "contact_id s \<notin> fst ` set (contacts_dict s)"
    by (metis atLeastLessThan_iff less_irrefl list.set_map set_upt)
  from step_store[OF st] show ?case
  proof
    assume "contacts_dict st = contacts_dict s \<and> contact_id st = contact_id s"
    with inv show ?thesis by simp
  next
    assume "startswith l END_SYMBOL \<and> listening_to_data s
          \<and> contacts_dict st = AList.update (contact_id s) (contact_dict s) (contacts_dict s)
          \<and> contact_id st = contact_id s + 1"
    with inv fresh show ?thesis by (simp add: update_fresh)
  qed
qed

lemma run_no_end_store:
  "\<forall>l\<in>set ls. \<not> startswith l END_SYMBOL \<Longrightarrow> run cfg st ls = Inr st' \<Longrightarrow>
   contacts_dict st' = contacts_dict st \<and> contact_id st' = contact_id st"
proof (induction ls arbitrary: st)
  case Nil
  then show ?case by simp
next
  case (Cons l ls)
  then obtain s where s: "step cfg l st = Inr s" and r: "run cfg s ls = Inr st'"
    by (auto split: sum.splits)
  from Cons.prems have "\<not> startswith l END_SYMBOL" by simp
  with step_store[OF s] have "contacts_dict s = contacts_dict st \<and> contact_id s = contact_id st"
    by blast
  moreover from Cons.IH[OF _ r] Cons.prems
  have "contacts_dict st' = contacts_dict s \<and> contact_id st' = contact_id s" by simp
  ultimately show ?case by simp
qed

lemma run_store_length:
  "run cfg st ls = Inr st' \<Longrightarrow>
   length (contacts_dict st')
     \<le> length (contacts_dict st) + length (filter (\<lambda>l. startswith l END_SYMBOL) ls)"
proof (induction ls arbitrary: st)
  case Nil
  then show ?case by simp
next
  case (Cons l ls)
  then obtain s where s: "step cfg l st = Inr s" and r: "run cfg s ls = Inr st'"
    by (auto split: sum.splits)
  have upd: "length (AList.update k v al) \<le> length al + 1"
    for k and v :: contact and al :: "(nat \<times> contact) list"
    by (induction al) auto
  from step_store[OF s]
  have "length (contacts_dict s)
          \<le> length (contacts_dict st) + (if startswith l END_SYMBOL then 1 else 0)"
    using upd[of "contact_id st" "contact_dict st" "contacts_dict st"] by auto
  with Cons.IH[OF r] show ?case by auto
qed

lemma example_input_runs: "\<not> isl (run example_config init_state example_input)"
  by code_simp

lemma example_open_runs:
  "\<not> isl (run example_config (projr (run example_config init_state example_input)) example_open)"
  by code_simp

section \<open>The contact store\<close>

text \<open>
  C6. After any input that the loop has read without an exception, the identifiers in
  the store are \<open>0, 1, \<dots>\<close> up to the counter, in this order. The next line either
  leaves the store and the counter as they are, or it is the record-end line of an open
  record and appends the contact in progress at the end of the store under the current
  counter, which then advances by one. So identifiers are dense from 0, only stored
  contacts take one, and the store keeps the order of the input.
\<close>

theorem store_identifiers:
  assumes "run cfg init_state ls = Inr st"
  shows "map fst (contacts_dict st) = [0..<contact_id st]
       \<and> (\<forall>line st'. step cfg line st = Inr st' \<longrightarrow>
            (contacts_dict st' = contacts_dict st \<and> contact_id st' = contact_id st)
          \<or> (startswith line END_SYMBOL \<and> listening_to_data st
              \<and> contacts_dict st' = contacts_dict st @ [(contact_id st, contact_dict st)]
              \<and> contact_id st' = contact_id st + 1))"
proof -
  have inv: "map fst (contacts_dict st) = [0..<contact_id st]"
    by (rule run_store_inv[OF assms])
  then have fresh: "contact_id st \<notin> fst ` set (contacts_dict st)"
    by (metis atLeastLessThan_iff less_irrefl list.set_map set_upt)
  show ?thesis
    using inv step_store[of cfg _ st] by (auto simp: update_fresh[OF fresh])
qed

theorem store_identifiers_witness:
  "run example_config init_state example_input
     = Inr (projr (run example_config init_state example_input))
   \<and> map fst (contacts_dict (projr (run example_config init_state example_input))) = [0, 1]"
proof -
  have h: "run example_config init_state example_input
             = Inr (projr (run example_config init_state example_input))"
    using example_input_runs by simp
  have "contact_id (projr (run example_config init_state example_input)) = 2"
    by code_simp
  with store_identifiers[OF h] h show ?thesis by (simp add: upt_rec)
qed

text \<open>
  C8, as the code has it. Lines that follow the last record-end line change neither the
  store nor the counter. When the input stops inside an open record, the parse is the
  exception that a line of that record raised, if one did, and otherwise the store as it
  was before that record: reaching the end of the input raises nothing and stores
  nothing, and the store never holds more contacts than record-end lines were read.
\<close>

theorem open_record_discarded:
  assumes "run cfg init_state ls = Inr st"
    and "\<forall>l\<in>set ls'. \<not> startswith l END_SYMBOL"
  shows "parse cfg (ls @ ls')
           = (case run cfg st ls' of Inl e \<Rightarrow> Inl e | Inr st' \<Rightarrow> Inr (contacts_dict st))
       \<and> (\<forall>st'. run cfg st ls' = Inr st'
             \<longrightarrow> contacts_dict st' = contacts_dict st \<and> contact_id st' = contact_id st)
       \<and> parse cfg ls = Inr (contacts_dict st)
       \<and> length (contacts_dict st) \<le> length (filter (\<lambda>l. startswith l END_SYMBOL) ls)"
proof -
  have same: "contacts_dict st' = contacts_dict st \<and> contact_id st' = contact_id st"
    if "run cfg st ls' = Inr st'" for st'
    using run_no_end_store[OF assms(2) that] .
  have whole: "run cfg init_state (ls @ ls') = run cfg st ls'"
    using assms(1) by (simp add: run_append ebind_def)
  have p: "parse cfg (ls @ ls')
           = (case run cfg st ls' of Inl e \<Rightarrow> Inl e | Inr st' \<Rightarrow> Inr (contacts_dict st))"
  proof (cases "run cfg st ls'")
    case (Inl e)
    then show ?thesis by (simp add: parse_def whole ebind_def)
  next
    case (Inr st')
    with same[OF Inr] show ?thesis by (simp add: parse_def whole ebind_def)
  qed
  have q: "parse cfg ls = Inr (contacts_dict st)"
    using assms(1) by (simp add: parse_def ebind_def)
  from run_store_length[OF assms(1)]
  have "length (contacts_dict st) \<le> length (filter (\<lambda>l. startswith l END_SYMBOL) ls)"
    by (simp add: init_state_def)
  with p q same show ?thesis by blast
qed

theorem open_record_discarded_witness:
  "parse example_config (example_input @ example_open) = parse example_config example_input
   \<and> \<not> isl (parse example_config (example_input @ example_open))
   \<and> listening_to_data (projr (run example_config init_state (example_input @ example_open)))"
proof -
  let ?st = "projr (run example_config init_state example_input)"
  let ?st' = "projr (run example_config ?st example_open)"
  have h1: "run example_config init_state example_input = Inr ?st"
    using example_input_runs by simp
  have h2: "\<forall>l\<in>set example_open. \<not> startswith l END_SYMBOL"
    by (simp add: example_open_def startswith_def END_SYMBOL_def ustr_simps)
  have h3: "run example_config ?st example_open = Inr ?st'"
    using example_open_runs by simp
  have "parse example_config (example_input @ example_open)
          = (case run example_config ?st example_open of
               Inl e \<Rightarrow> Inl e | Inr st' \<Rightarrow> Inr (contacts_dict ?st))"
    using open_record_discarded[OF h1 h2] by blast
  then have p: "parse example_config (example_input @ example_open) = Inr (contacts_dict ?st)"
    by (subst (asm) h3) simp
  have q: "parse example_config example_input = Inr (contacts_dict ?st)"
    using open_record_discarded[OF h1 h2] by blast
  have r: "listening_to_data (projr (run example_config init_state (example_input @ example_open)))"
    by code_simp
  from p q r show ?thesis by simp
qed

theorem open_record_counterexample:
  "parse example_config (example_input @ example_open_failing) = Inl KeyError
   \<and> parse example_config (example_input @ [ustr ''N:Low;Kim'' @ [10]]) = Inl IndexError"
  by (simp add: parse_def example_input_def example_open_failing_def eval_defs)

section \<open>Folded notes\<close>


lemma note_translate_newline_space:
  "note_translate (10 # 32 # r) = 10 # 32 # note_translate r"
  by (simp add: note_translate_def)

lemma note_continuation_fold:
  "note_continuation (ustr '' n '' @ rest) [92] =
     (10 # 32 # note_translate (if length rest + 2 \<le> 75 \<and> rest \<noteq> [] \<and> last rest = 10
                                then butlast rest else rest),
      py_slice (Some (- 1)) None
        (10 # 32 # (if length rest + 2 \<le> 75 \<and> rest \<noteq> [] \<and> last rest = 10
                    then butlast rest else rest)))"
proof -
  have l1: "py_slice (Some 1) None (ustr '' n '' @ rest) = 110 # 32 # rest"
    by (simp add: slice_from ustr_simps)
  have last1: "py_slice (Some (- 1)) None (110 # 32 # rest) = [10] \<longleftrightarrow> rest \<noteq> [] \<and> last rest = 10"
  proof (cases rest rule: rev_cases)
    case Nil
    then show ?thesis by (simp add: slice_tail)
  next
    case (snoc ys y)
    then show ?thesis by (simp add: slice_tail)
  qed
  have init1: "rest \<noteq> [] \<Longrightarrow> py_slice None (Some (- 1)) (110 # 32 # rest) = 110 # 32 # butlast rest"
    by (cases rest) (simp_all add: slice_init butlast_conv_take)
  have fs: "py_slice (Some 0) (Some 2) (110 # 32 # r) = ustr ''n ''" for r
    by (simp add: slice_mid ustr_simps)
  have tl: "py_slice (Some 1) None (110 # 32 # r) = 32 # r" for r :: pstr
    by (simp add: slice_from)
  show ?thesis
    unfolding note_continuation_def Let_def l1 last1
    by (auto simp: init1 fs tl note_translate_newline_space)
qed

lemma space_not_begin: "\<not> startswith (32 # s) BEGIN_SYMBOL"
  by (simp add: startswith_def BEGIN_SYMBOL_def ustr_simps)

lemma space_not_end: "\<not> startswith (32 # s) END_SYMBOL"
  by (simp add: startswith_def END_SYMBOL_def ustr_simps)

lemma note_fold_step:
  assumes "listening_to_data st" and "key_previous st = ustr ''NOTE''"
    and "last_symbol st = [92]"
    and "map_of (contact_dict st) (value_previous st) = Some old"
    and "line = ustr '' n '' @ rest"
    and "\<not> is_standard cfg line" and "\<not> is_custom cfg line" and "\<not> is_social cfg line"
    and "ustr ''NOTE'' \<notin> set (social_profile_field_list cfg)"
  shows "step cfg line st =
      Inr (st\<lparr>contact_dict := AList.update (value_previous st)
                 (old @ fst (note_continuation (ustr '' n '' @ rest) [92])) (contact_dict st),
              last_symbol := snd (note_continuation (ustr '' n '' @ rest) [92])\<rparr>)"
proof -
  have line: "line = 32 # 110 # 32 # rest" using assms(5) by (simp add: ustr_simps)
  have nb: "\<not> startswith line BEGIN_SYMBOL" "\<not> startswith line END_SYMBOL"
    unfolding line by (rule space_not_begin, rule space_not_end)
  have names: "ustr ''NOTE'' \<noteq> ustr ''ADR''" "ustr ''NOTE'' \<noteq> ustr ''PHOTO''"
    "ustr ''NOTE'' \<noteq> ustr ''CATEGORIES''"
    by (simp_all add: ustr_simps)
  have reduce: "step cfg line st = continuation_branch cfg line st"
    using assms(1,6,7,8) nb
    by (simp add: step_def data_branches_def name_branch_def standard_branch_def
        custom_branch_def social_branch_def ebind_def)
  have nth: "py_nth line 0 = Inr 32" by (simp add: line py_nth_def)
  have cont: "continuation_branch cfg line st =
      Inr (st\<lparr>contact_dict := AList.update (value_previous st)
                 (old @ fst (note_continuation line [92])) (contact_dict st),
              last_symbol := snd (note_continuation line [92])\<rparr>)"
    using assms(2,3,4,9) names nth
    by (simp add: continuation_branch_def may_fold_def ebind_def py_getitem_def Let_def)
  show ?thesis
    using reduce cont assms(5) by simp
qed

text \<open>
  C3, as the code has it. While the previous key is the note and the last kept character
  of the previous contributing line is a backslash, a continuation line that begins with
  a space, \<open>n\<close> and a space (and that no field branch matches) appends to the note a
  real line break, the space that followed the \<open>n\<close>, and the cleaned rest of the line,
  without the final line terminator when the line is short enough: only the \<open>n\<close> is
  replaced, the space stays.
\<close>

theorem note_fold_newline:
  assumes "listening_to_data st" and "key_previous st = ustr ''NOTE''"
    and "last_symbol st = [92]"
    and "map_of (contact_dict st) (value_previous st) = Some old"
    and "line = ustr '' n '' @ rest"
    and "\<not> is_standard cfg line" and "\<not> is_custom cfg line" and "\<not> is_social cfg line"
    and "ustr ''NOTE'' \<notin> set (social_profile_field_list cfg)"
  shows "\<exists>st'. step cfg line st = Inr st'
           \<and> map_of (contact_dict st') (value_previous st)
               = Some (old @ [10, 32]
                   @ note_translate (if length rest + 2 \<le> 75 \<and> rest \<noteq> [] \<and> last rest = 10
                                     then butlast rest else rest))"
  unfolding note_fold_step[OF assms]
  by (simp add: note_continuation_fold update_conv')

lemma example_note_state:
  "listening_to_data (projr (run example_config init_state example_note))"
  "key_previous (projr (run example_config init_state example_note)) = ustr ''NOTE''"
  "last_symbol (projr (run example_config init_state example_note)) = [92]"
  "map_of (contact_dict (projr (run example_config init_state example_note)))
     (value_previous (projr (run example_config init_state example_note))) = Some (ustr ''Hello '')"
  "example_note_continuation = ustr '' n '' @ (ustr ''world'' @ [10])"
  "\<not> is_standard example_config example_note_continuation"
  "\<not> is_custom example_config example_note_continuation"
  "\<not> is_social example_config example_note_continuation"
  "ustr ''NOTE'' \<notin> set (social_profile_field_list example_config)"
  by (simp_all add: example_note_def example_note_continuation_def eval_defs)

lemma example_note_value:
  "value_previous (projr (run example_config init_state example_note)) = ustr ''Note''"
  by (simp add: example_note_def eval_defs)

theorem note_fold_newline_witness:
  "field_of (step example_config example_note_continuation
              (projr (run example_config init_state example_note))) (ustr ''Note'')
     = Some (ustr ''Hello '' @ [10] @ ustr '' world'')"
proof -
  have tr: "note_translate (ustr ''world'') = ustr ''world''"
    by (simp add: note_translate_def ustr_simps)
  from note_fold_newline[OF example_note_state] tr example_note_value show ?thesis
    by (auto simp: field_of_def ustr_simps)
qed

theorem note_fold_counterexample:
  "field_of (run example_config init_state (example_note @ [example_note_continuation]))
     (ustr ''Note'') = Some (ustr ''Hello '' @ [10] @ ustr '' world'')
   \<and> field_of (run example_config init_state (example_note @ [example_note_continuation]))
     (ustr ''Note'') \<noteq> Some (ustr ''Hello '' @ [10] @ ustr ''world'')"
  by (simp add: example_note_def example_note_continuation_def eval_defs)

section \<open>One rule per line\<close>


lemma name_branch_skip: "\<not> startswith line BEGIN_SYMBOL \<Longrightarrow> name_branch line st = Inr st"
  by (simp add: name_branch_def)

lemma standard_branch_skip: "\<not> is_standard cfg line \<Longrightarrow> standard_branch cfg line st = Inr st"
  by (simp add: standard_branch_def)

lemma custom_branch_skip: "\<not> is_custom cfg line \<Longrightarrow> custom_branch cfg line st = Inr st"
  by (simp add: custom_branch_def)

lemma social_branch_skip: "\<not> is_social cfg line \<Longrightarrow> social_branch cfg line st = Inr st"
  by (simp add: social_branch_def)











section \<open>Repeated fields\<close>

lemma py_str_digits: "foldl (\<lambda>a d. 10 * a + (d - 48)) 0 (py_str n) = n"
proof (induction n rule: py_str.induct)
  case (1 n)
  show ?case
  proof (cases "n < 10")
    case True
    then show ?thesis by (simp add: py_str.simps[of n])
  next
    case False
    with 1 show ?thesis by (simp add: py_str.simps[of n])
  qed
qed

lemma py_str_inj: "py_str n = py_str m \<Longrightarrow> n = m"
  by (metis py_str_digits)

lemma suffixed_inj: "suffixed v n = suffixed v m \<Longrightarrow> n = m"
  by (simp add: suffixed_def py_str_inj)

lemma underscore_suffixed: "95 \<in> set (suffixed v n)"
  by (simp add: suffixed_def ustr_simps)

lemma suffixed_base: "95 \<notin> set v \<Longrightarrow> takeWhile (\<lambda>c. c \<noteq> 95) (suffixed v n) = v"
  by (auto simp: suffixed_def ustr_simps takeWhile_append2 takeWhile_tail)

lemma suffixed_eq: "95 \<notin> set v \<Longrightarrow> 95 \<notin> set w \<Longrightarrow> suffixed v n = suffixed w m \<Longrightarrow> v = w"
  by (metis suffixed_base)

lemma family_disjoint:
  assumes "95 \<notin> set v" and "95 \<notin> set w" and "v \<noteq> w"
  shows "family v \<inter> family w = {}"
  using assms underscore_suffixed suffixed_eq
  by (auto simp: family_def)

lemma py_str_1: "py_str 1 = ustr ''1''"
  by (simp add: py_str.simps[of "Suc 0"] ustr_simps)

lemma suffixed_1: "v @ ustr ''_1'' = suffixed v 1"
  using py_str_1 by (simp add: suffixed_def ustr_simps)

lemma disambiguate_result:
  assumes "disambiguate c v contact = Inr (contact', v')"
  shows "(c \<le> 1 \<longrightarrow> contact' = contact \<and> v' = v)
       \<and> (c = 2 \<longrightarrow> (\<exists>old. map_of contact v = Some old
                        \<and> contact' = AList.update (suffixed v 1) old (AList.delete v contact))
                    \<and> v' = suffixed v 2)
       \<and> (2 < c \<longrightarrow> contact' = contact \<and> v' = suffixed v c)"
  using assms
  by (auto simp: disambiguate_def ebind_Inr_iff py_getitem_def suffixed_1 suffixed_def
      split: if_splits option.splits)

lemma delete_keys_set: "fst ` set (AList.delete k al) = fst ` set al - {k}"
  by (induction al) auto

lemma store_keys:
  assumes "disambiguate (Suc c) v contact = Inr (contact', v')"
  shows "fst ` set (AList.update v' data contact') = stored_keys c v (fst ` set contact)"
proof -
  consider "c = 0" | "c = 1" | "1 < c" by linarith
  then show ?thesis
  proof cases
    case 1
    with disambiguate_result[OF assms] show ?thesis
      by (auto simp: stored_keys_def dom_update)
  next
    case 2
    with disambiguate_result[OF assms] obtain old where
      "contact' = AList.update (suffixed v 1) old (AList.delete v contact)" "v' = suffixed v 2"
      by auto
    with 2 show ?thesis
      by (simp add: stored_keys_def dom_update delete_keys_set insert_commute)
  next
    case 3
    with disambiguate_result[OF assms] show ?thesis
      by (auto simp: stored_keys_def dom_update)
  qed
qed

lemma suffixed_neq_bare: "suffixed v n \<noteq> v"
  by (simp add: suffixed_def ustr_simps)

lemma suffixed_upto_2: "suffixed v ` {1..2} = {suffixed v 1, suffixed v 2}"
proof -
  have "{1..2::nat} = {1, 2}" by auto
  then show ?thesis by (metis image_empty image_insert)
qed

lemma stored_keys_own:
  assumes "K \<inter> family v = field_entries c v"
  shows "stored_keys c v K \<inter> family v = field_entries (Suc c) v"
proof -
  have fam: "v \<in> family v" "suffixed v n \<in> family v" for n
    by (simp_all add: family_def)
  consider "c = 0" | "c = 1" | "1 < c" by linarith
  then show ?thesis
  proof cases
    case 1
    with assms fam show ?thesis by (auto simp: stored_keys_def field_entries_def)
  next
    case 2
    from 2 assms have K: "K \<inter> family v = {v}" by (simp add: field_entries_def)
    have "stored_keys c v K \<inter> family v = {suffixed v 1, suffixed v 2}"
      using K fam suffixed_neq_bare[of v] unfolding stored_keys_def 2 by auto
    with 2 show ?thesis by (simp add: field_entries_def suffixed_upto_2 del: One_nat_def)
  next
    case 3
    then have "{1..Suc c} = insert (Suc c) {1..c}" by auto
    with 3 assms fam show ?thesis by (auto simp: stored_keys_def field_entries_def)
  qed
qed

lemma stored_keys_other:
  assumes "family v \<inter> family w = {}"
  shows "stored_keys c v K \<inter> family w = K \<inter> family w"
proof -
  have fam: "v \<in> family v" "suffixed v n \<in> family v" for n
    by (simp_all add: family_def)
  with assms have out: "v \<notin> family w" "suffixed v n \<notin> family w" for n by blast+
  then show ?thesis by (auto simp: stored_keys_def)
qed

lemma counted_same_table:
  assumes "counted K T cnt" and "map_of T k = Some v"
    and "\<And>k' w. map_of T k' = Some w \<Longrightarrow> 95 \<notin> set w"
    and "\<And>k'. map_of T k' = Some v \<Longrightarrow> k' = k"
  shows "counted (stored_keys (cnt k) v K) T (cnt(k := Suc (cnt k)))"
  unfolding counted_def
proof (intro allI impI)
  fix k' w assume w: "map_of T k' = Some w"
  show "stored_keys (cnt k) v K \<inter> family w = field_entries ((cnt(k := Suc (cnt k))) k') w"
  proof (cases "k' = k")
    case True
    with w assms(2) have "w = v" by simp
    with True assms(1,2) show ?thesis by (simp add: counted_def stored_keys_own)
  next
    case False
    with assms(4) w have "v \<noteq> w" by blast
    with assms(3)[OF w] assms(3)[OF assms(2)] have "family v \<inter> family w = {}"
      by (simp add: family_disjoint)
    with False assms(1) w show ?thesis by (simp add: counted_def stored_keys_other)
  qed
qed

lemma counted_other_table:
  assumes "counted K T cnt" and "95 \<notin> set v"
    and "\<And>k' w. map_of T k' = Some w \<Longrightarrow> 95 \<notin> set w \<and> w \<noteq> v"
  shows "counted (stored_keys c v K) T cnt"
  unfolding counted_def
proof (intro allI impI)
  fix k' w assume w: "map_of T k' = Some w"
  with assms(2,3) have "family v \<inter> family w = {}" by (metis family_disjoint)
  with assms(1) w show "stored_keys c v K \<inter> family w = field_entries (cnt k') w"
    by (simp add: counted_def stored_keys_other)
qed

lemma map_of_snd_mem: "map_of T k = Some v \<Longrightarrow> v \<in> snd ` set T"
  by (metis image_eqI map_of_SomeD snd_conv)

lemma map_of_snd_inj:
  assumes "distinct (map snd T)" and "map_of T k = Some v" and "map_of T k' = Some v"
  shows "k' = k"
proof -
  have "inj_on snd (set T)" using assms(1) by (simp add: distinct_map)
  moreover have "(k, v) \<in> set T" "(k', v) \<in> set T" using assms(2,3) by (auto dest: map_of_SomeD)
  ultimately have "(k', v) = (k, v)"
    using inj_onD[of snd "set T" "(k', v)" "(k, v)"] by simp
  then show ?thesis by simp
qed

lemma clean_names_tables:
  assumes "clean_names cfg"
  shows "distinct (map snd (standard_field_dict cfg))"
    and "distinct (map snd (custom_field_dict cfg))"
    and "distinct (map snd (social_profile_field_dict cfg))"
    and "snd ` set (standard_field_dict cfg) \<inter> snd ` set (custom_field_dict cfg) = {}"
    and "snd ` set (standard_field_dict cfg) \<inter> snd ` set (social_profile_field_dict cfg) = {}"
    and "snd ` set (custom_field_dict cfg) \<inter> snd ` set (social_profile_field_dict cfg) = {}"
  using assms by (auto simp: clean_names_def canonical_names_def)

lemma clean_names_name:
  assumes "clean_names cfg"
    and "v \<in> snd ` set (standard_field_dict cfg) \<union> snd ` set (custom_field_dict cfg)
             \<union> snd ` set (social_profile_field_dict cfg)"
  shows "95 \<notin> set v" and "v \<notin> set name_fields"
  using assms by (auto simp: clean_names_def canonical_names_def list_all_iff)

lemma standard_branch_shape:
  assumes "standard_branch cfg line st = Inr st'" and "is_standard cfg line"
  shows "\<exists>k v c' v' data. map_of (standard_field_dict cfg) k = Some v
       \<and> disambiguate (Suc (standard_count st k)) v (contact_dict st) = Inr (c', v')
       \<and> contact_dict st' = AList.update v' data c'
       \<and> standard_count st' = (standard_count st)(k := Suc (standard_count st k))
       \<and> custom_count st' = custom_count st \<and> social_count st' = social_count st"
proof -
  from assms obtain k v c' v' data sym where
    "map_of (standard_field_dict cfg) k = Some v"
    "disambiguate (Suc (standard_count st k)) v (contact_dict st) = Inr (c', v')"
    "st' = st\<lparr>contact_dict := AList.update v' data c',
              standard_count := (standard_count st)(k := Suc (standard_count st k)),
              key := k, val := v', key_previous := k, value_previous := v',
              last_symbol := sym\<rparr>"
    by (auto simp: standard_branch_def ebind_Inr_iff py_getitem_def Let_def
        split: option.splits)
  then show ?thesis by force
qed

lemma custom_branch_shape:
  assumes "custom_branch cfg line st = Inr st'" and "is_custom cfg line"
  shows "\<exists>k v c' v' data. map_of (custom_field_dict cfg) k = Some v
       \<and> disambiguate (Suc (custom_count st k)) v (contact_dict st) = Inr (c', v')
       \<and> contact_dict st' = AList.update v' data c'
       \<and> custom_count st' = (custom_count st)(k := Suc (custom_count st k))
       \<and> standard_count st' = standard_count st \<and> social_count st' = social_count st"
proof -
  from assms obtain k v c' v' data where
    "map_of (custom_field_dict cfg) k = Some v"
    "disambiguate (Suc (custom_count st k)) v (contact_dict st) = Inr (c', v')"
    "st' = st\<lparr>contact_dict := AList.update v' data c',
              custom_count := (custom_count st)(k := Suc (custom_count st k)),
              key := k, val := v', key_previous := k, value_previous := v'\<rparr>"
    by (auto simp: custom_branch_def ebind_Inr_iff py_getitem_def Let_def
        split: option.splits)
  then show ?thesis by force
qed

lemma social_branch_shape:
  assumes "social_branch cfg line st = Inr st'" and "is_social cfg line"
  shows "\<exists>k v c' v' data. map_of (social_profile_field_dict cfg) k = Some v
       \<and> disambiguate (Suc (social_count st k)) v (contact_dict st) = Inr (c', v')
       \<and> contact_dict st' = AList.update v' data c'
       \<and> social_count st' = (social_count st)(k := Suc (social_count st k))
       \<and> standard_count st' = standard_count st \<and> custom_count st' = custom_count st"
proof -
  from assms obtain k v c' v' data where
    "map_of (social_profile_field_dict cfg) k = Some v"
    "disambiguate (Suc (social_count st k)) v (contact_dict st) = Inr (c', v')"
    "st' = st\<lparr>contact_dict := AList.update v' data c',
              social_count := (social_count st)(k := Suc (social_count st k)),
              key := k, val := v', key_previous := k, value_previous := v'\<rparr>"
    by (auto simp: social_branch_def ebind_Inr_iff py_getitem_def Let_def
        split: option.splits)
  then show ?thesis by force
qed

lemma update_present_keys:
  "map_of al k = Some y \<Longrightarrow> fst ` set (AList.update k x al) = fst ` set al"
  by (auto simp: dom_update dest!: map_of_SomeD intro: rev_image_eqI)

lemma continuation_branch_shape:
  assumes "continuation_branch cfg line st = Inr st'"
  shows "fst ` set (contact_dict st') = fst ` set (contact_dict st)
       \<and> standard_count st' = standard_count st \<and> custom_count st' = custom_count st
       \<and> social_count st' = social_count st"
proof (cases "may_fold cfg (key_previous st) \<and> py_nth line 0 = Inr 32")
  case False
  with assms have "st' = st"
    by (auto simp: continuation_branch_def ebind_def split: sum.splits if_splits)
  then show ?thesis by simp
next
  case True
  with assms obtain old x sym where "map_of (contact_dict st) (value_previous st) = Some old"
    "st' = st\<lparr>contact_dict := AList.update (value_previous st) x (contact_dict st),
              last_symbol := sym\<rparr>"
    by (auto simp: continuation_branch_def ebind_def py_getitem_def Let_def
        split: option.splits)
  then show ?thesis by (simp add: update_present_keys)
qed

lemma entries_inv_cong:
  assumes "fst ` set (contact_dict st') = fst ` set (contact_dict st)"
    and "standard_count st' = standard_count st" and "custom_count st' = custom_count st"
    and "social_count st' = social_count st"
  shows "entries_inv cfg st' = entries_inv cfg st"
  using assms by (simp add: entries_inv_def)

lemma field_store_counted:
  assumes "counted K T cnt" and "counted K T1 cnt1" and "counted K T2 cnt2"
    and "distinct (map snd T)"
    and "\<forall>w \<in> snd ` set T \<union> snd ` set T1 \<union> snd ` set T2. 95 \<notin> set w"
    and "snd ` set T \<inter> snd ` set T1 = {}" and "snd ` set T \<inter> snd ` set T2 = {}"
    and "map_of T k = Some v"
  shows "counted (stored_keys (cnt k) v K) T (cnt(k := Suc (cnt k)))
       \<and> counted (stored_keys (cnt k) v K) T1 cnt1
       \<and> counted (stored_keys (cnt k) v K) T2 cnt2"
proof -
  have v: "v \<in> snd ` set T" using assms(8) by (rule map_of_snd_mem)
  with assms(5) have v95: "95 \<notin> set v" by blast
  have own: "counted (stored_keys (cnt k) v K) T (cnt(k := Suc (cnt k)))"
  proof (rule counted_same_table[OF assms(1,8)])
    fix k' w assume "map_of T k' = Some w"
    then have "w \<in> snd ` set T" by (rule map_of_snd_mem)
    with assms(5) show "95 \<notin> set w" by blast
  next
    fix k' assume "map_of T k' = Some v"
    with assms(4,8) show "k' = k" by (metis map_of_snd_inj)
  qed
  have other: "counted (stored_keys (cnt k) v K) T' cnt'"
    if "counted K T' cnt'" "snd ` set T \<inter> snd ` set T' = {}"
      "\<forall>w \<in> snd ` set T'. 95 \<notin> set w" for T' cnt'
  proof (rule counted_other_table[OF that(1) v95])
    fix k' w assume "map_of T' k' = Some w"
    then have "w \<in> snd ` set T'" by (rule map_of_snd_mem)
    with that(2,3) v show "95 \<notin> set w \<and> w \<noteq> v" by blast
  qed
  from own other[OF assms(2,6)] other[OF assms(3,7)] assms(5) show ?thesis by blast
qed

lemma clean_names_95:
  assumes "clean_names cfg"
  shows "\<forall>w \<in> snd ` set (standard_field_dict cfg) \<union> snd ` set (custom_field_dict cfg)
            \<union> snd ` set (social_profile_field_dict cfg). 95 \<notin> set w"
  using clean_names_name(1)[OF assms] by blast

lemma standard_branch_inv:
  assumes "clean_names cfg" and "entries_inv cfg st" and "standard_branch cfg line st = Inr st'"
  shows "entries_inv cfg st'"
proof (cases "is_standard cfg line")
  case False
  with assms(2,3) show ?thesis by (simp add: standard_branch_skip)
next
  case True
  from standard_branch_shape[OF assms(3) True] obtain k v c' v' data where
    k: "map_of (standard_field_dict cfg) k = Some v"
    and d: "disambiguate (Suc (standard_count st k)) v (contact_dict st) = Inr (c', v')"
    and c: "contact_dict st' = AList.update v' data c'"
    and n: "standard_count st' = (standard_count st)(k := Suc (standard_count st k))"
      "custom_count st' = custom_count st" "social_count st' = social_count st"
    by blast
  have keys: "fst ` set (contact_dict st')
                = stored_keys (standard_count st k) v (fst ` set (contact_dict st))"
    unfolding c by (rule store_keys[OF d])
  from assms(2) have inv: "counted (fst ` set (contact_dict st)) (standard_field_dict cfg) (standard_count st)"
    "counted (fst ` set (contact_dict st)) (custom_field_dict cfg) (custom_count st)"
    "counted (fst ` set (contact_dict st)) (social_profile_field_dict cfg) (social_count st)"
    by (simp_all add: entries_inv_def)
  from field_store_counted[OF inv(1,2,3) clean_names_tables(1)[OF assms(1)] _
      clean_names_tables(4,5)[OF assms(1)] k] clean_names_95[OF assms(1)]
  show ?thesis unfolding entries_inv_def keys n by blast
qed

lemma custom_branch_inv:
  assumes "clean_names cfg" and "entries_inv cfg st" and "custom_branch cfg line st = Inr st'"
  shows "entries_inv cfg st'"
proof (cases "is_custom cfg line")
  case False
  with assms(2,3) show ?thesis by (simp add: custom_branch_skip)
next
  case True
  from custom_branch_shape[OF assms(3) True] obtain k v c' v' data where
    k: "map_of (custom_field_dict cfg) k = Some v"
    and d: "disambiguate (Suc (custom_count st k)) v (contact_dict st) = Inr (c', v')"
    and c: "contact_dict st' = AList.update v' data c'"
    and n: "custom_count st' = (custom_count st)(k := Suc (custom_count st k))"
      "standard_count st' = standard_count st" "social_count st' = social_count st"
    by blast
  have keys: "fst ` set (contact_dict st')
                = stored_keys (custom_count st k) v (fst ` set (contact_dict st))"
    unfolding c by (rule store_keys[OF d])
  from assms(2) have inv: "counted (fst ` set (contact_dict st)) (standard_field_dict cfg) (standard_count st)"
    "counted (fst ` set (contact_dict st)) (custom_field_dict cfg) (custom_count st)"
    "counted (fst ` set (contact_dict st)) (social_profile_field_dict cfg) (social_count st)"
    by (simp_all add: entries_inv_def)
  have disj: "snd ` set (custom_field_dict cfg) \<inter> snd ` set (standard_field_dict cfg) = {}"
    using clean_names_tables(4)[OF assms(1)] by blast
  have all95: "\<forall>w \<in> snd ` set (custom_field_dict cfg) \<union> snd ` set (standard_field_dict cfg)
            \<union> snd ` set (social_profile_field_dict cfg). 95 \<notin> set w"
    using clean_names_95[OF assms(1)] by blast
  from field_store_counted[OF inv(2,1,3) clean_names_tables(2)[OF assms(1)] all95
      disj clean_names_tables(6)[OF assms(1)] k]
  show ?thesis unfolding entries_inv_def keys n by blast
qed

lemma social_branch_inv:
  assumes "clean_names cfg" and "entries_inv cfg st" and "social_branch cfg line st = Inr st'"
  shows "entries_inv cfg st'"
proof (cases "is_social cfg line")
  case False
  with assms(2,3) show ?thesis by (simp add: social_branch_skip)
next
  case True
  from social_branch_shape[OF assms(3) True] obtain k v c' v' data where
    k: "map_of (social_profile_field_dict cfg) k = Some v"
    and d: "disambiguate (Suc (social_count st k)) v (contact_dict st) = Inr (c', v')"
    and c: "contact_dict st' = AList.update v' data c'"
    and n: "social_count st' = (social_count st)(k := Suc (social_count st k))"
      "standard_count st' = standard_count st" "custom_count st' = custom_count st"
    by blast
  have keys: "fst ` set (contact_dict st')
                = stored_keys (social_count st k) v (fst ` set (contact_dict st))"
    unfolding c by (rule store_keys[OF d])
  from assms(2) have inv: "counted (fst ` set (contact_dict st)) (standard_field_dict cfg) (standard_count st)"
    "counted (fst ` set (contact_dict st)) (custom_field_dict cfg) (custom_count st)"
    "counted (fst ` set (contact_dict st)) (social_profile_field_dict cfg) (social_count st)"
    by (simp_all add: entries_inv_def)
  have disj: "snd ` set (social_profile_field_dict cfg) \<inter> snd ` set (standard_field_dict cfg) = {}"
    "snd ` set (social_profile_field_dict cfg) \<inter> snd ` set (custom_field_dict cfg) = {}"
    using clean_names_tables(5,6)[OF assms(1)] by blast+
  have all95: "\<forall>w \<in> snd ` set (social_profile_field_dict cfg) \<union> snd ` set (standard_field_dict cfg)
            \<union> snd ` set (custom_field_dict cfg). 95 \<notin> set w"
    using clean_names_95[OF assms(1)] by blast
  from field_store_counted[OF inv(3,1,2) clean_names_tables(3)[OF assms(1)] all95 disj k]
  show ?thesis unfolding entries_inv_def keys n by blast
qed

lemma continuation_branch_inv:
  assumes "entries_inv cfg st" and "continuation_branch cfg line st = Inr st'"
  shows "entries_inv cfg st'"
  using continuation_branch_shape[OF assms(2)] assms(1) entries_inv_cong[of st' st cfg]
  by simp

lemma store_nonempty_keys: "fst ` set (store_nonempty n x c) \<subseteq> insert n (fst ` set c)"
  by (auto simp: store_nonempty_def dom_update)

lemma name_fields_no_underscore: "nf \<in> set name_fields \<Longrightarrow> 95 \<notin> set nf"
  by (auto simp: name_fields_def ustr_simps)

lemma name_keys_counted:
  assumes "clean_names cfg" and "K \<subseteq> set name_fields"
    and "T = standard_field_dict cfg \<or> T = custom_field_dict cfg
         \<or> T = social_profile_field_dict cfg"
  shows "counted K T (\<lambda>_. 0)"
  unfolding counted_def
proof (intro allI impI)
  fix k v assume "map_of T k = Some v"
  then have "v \<in> snd ` set T" by (rule map_of_snd_mem)
  with assms(3) have "v \<notin> set name_fields"
    using clean_names_name(2)[OF assms(1), of v] by blast
  moreover have "suffixed v n \<notin> set name_fields" for n
    using name_fields_no_underscore underscore_suffixed by blast
  ultimately have "K \<inter> family v = {}" using assms(2) by (auto simp: family_def)
  then show "K \<inter> family v = field_entries ((\<lambda>_. 0) k) v" by (simp add: field_entries_def)
qed

lemma name_branch_begin_inv:
  assumes "clean_names cfg" and "name_branch line (begin_record st) = Inr s"
  shows "entries_inv cfg s"
proof -
  have keys: "fst ` set (contact_dict s) \<subseteq> set name_fields"
  proof (cases "startswith line BEGIN_SYMBOL")
    case False
    with assms(2) show ?thesis by (auto simp: name_branch_def begin_record_def)
  next
    case True
    with assms(2) obtain a b c d where
      "contact_dict s = store_nonempty (ustr ''Middle Name 2'') d
          (store_nonempty (ustr ''Middle Name 1'') c
            (store_nonempty (ustr ''First Name'') b
              (store_nonempty (ustr ''Last Name'') a [])))"
      by (auto simp: name_branch_def ebind_Inr_iff begin_record_def)
    then show ?thesis
      using store_nonempty_keys[of "ustr ''Middle Name 2''" d]
        store_nonempty_keys[of "ustr ''Middle Name 1''" c]
        store_nonempty_keys[of "ustr ''First Name''" b]
        store_nonempty_keys[of "ustr ''Last Name''" a "[]"]
      unfolding name_fields_def by (simp add: subset_iff) blast
  qed
  have counts: "standard_count s = (\<lambda>_. 0)" "custom_count s = (\<lambda>_. 0)" "social_count s = (\<lambda>_. 0)"
    using assms(2) by (auto simp: name_branch_def ebind_Inr_iff begin_record_def split: if_splits)
  show ?thesis
    unfolding entries_inv_def counts
    using name_keys_counted[OF assms(1) keys] by blast
qed

lemma field_branches_inv:
  assumes "clean_names cfg" and "entries_inv cfg s1"
    and "standard_branch cfg line s1 = Inr s2" and "custom_branch cfg line s2 = Inr s3"
    and "social_branch cfg line s3 = Inr s4" and "continuation_branch cfg line s4 = Inr st'"
  shows "entries_inv cfg st'"
  using assms standard_branch_inv custom_branch_inv social_branch_inv continuation_branch_inv
  by blast

lemma data_branches_inv:
  assumes "clean_names cfg" and "entries_inv cfg st" and "\<not> startswith line BEGIN_SYMBOL"
    and "data_branches cfg line st = Inr st'"
  shows "entries_inv cfg st'"
proof (cases "listening_to_data st")
  case False
  with assms(2,4) show ?thesis by (simp add: data_branches_def)
next
  case True
  with assms(3,4) obtain s2 s3 s4 where
    "standard_branch cfg line st = Inr s2" "custom_branch cfg line s2 = Inr s3"
    "social_branch cfg line s3 = Inr s4" "continuation_branch cfg line s4 = Inr st'"
    by (auto simp: data_branches_def name_branch_skip ebind_Inr_iff)
  with assms(1,2) show ?thesis by (rule field_branches_inv)
qed

lemma step_inv:
  assumes "clean_names cfg" and "entries_inv cfg st" and "step cfg line st = Inr st'"
  shows "entries_inv cfg st'"
proof (cases "startswith line BEGIN_SYMBOL")
  case True
  then have "data_branches cfg line (begin_record st) = Inr st'"
    using assms(3) begin_not_end[OF True] by (simp add: step_def)
  then obtain s1 s2 s3 s4 where
    "name_branch line (begin_record st) = Inr s1"
    "standard_branch cfg line s1 = Inr s2" "custom_branch cfg line s2 = Inr s3"
    "social_branch cfg line s3 = Inr s4" "continuation_branch cfg line s4 = Inr st'"
    by (auto simp: data_branches_def begin_record_def ebind_Inr_iff)
  with assms(1) name_branch_begin_inv show ?thesis by (metis field_branches_inv)
next
  case nb: False
  show ?thesis
  proof (cases "startswith line END_SYMBOL \<and> listening_to_data st")
    case False
    then have "data_branches cfg line st = Inr st'"
      using assms(3) nb by (auto simp: step_def)
    with assms(1,2) nb show ?thesis by (metis data_branches_inv)
  next
    case True
    then obtain fl where fl: "record_end cfg st = Inr fl"
      and rest: "(case fl of Continue s \<Rightarrow> Inr s | Fallthrough s \<Rightarrow> data_branches cfg line s) = Inr st'"
      using assms(3) nb by (auto simp: step_def ebind_Inr_iff)
    from record_end_cases[OF fl] show ?thesis
    proof (elim disjE)
      assume "fl = Fallthrough st"
      with rest have "data_branches cfg line st = Inr st'" by simp
      with assms(1,2) nb show ?thesis by (metis data_branches_inv)
    next
      assume "fl = Continue (st\<lparr>listening_to_data := False\<rparr>)"
      with rest assms(2) show ?thesis by (auto simp: entries_inv_def)
    next
      assume "fl = Continue (store_contact st)"
      with rest assms(2) show ?thesis
        by (auto simp: entries_inv_def store_contact_def add_contact_def)
    qed
  qed
qed

lemma run_inv:
  assumes "clean_names cfg"
  shows "entries_inv cfg st \<Longrightarrow> run cfg st ls = Inr st' \<Longrightarrow> entries_inv cfg st'"
proof (induction ls arbitrary: st)
  case Nil
  then show ?case by simp
next
  case (Cons l ls)
  then obtain s where s: "step cfg l st = Inr s" and r: "run cfg s ls = Inr st'"
    by (auto split: sum.splits)
  from step_inv[OF assms Cons.prems(1) s] r show ?case by (rule Cons.IH)
qed

lemma init_state_inv: "entries_inv cfg init_state"
  by (simp add: entries_inv_def counted_def init_state_def field_entries_def)

lemma counted_archived:
  assumes "counted (fst ` set contact) T cnt" and "map_of T k = Some v" and "2 \<le> cnt k"
  shows "archived contact v (cnt k)"
proof -
  from assms have K: "fst ` set contact \<inter> family v = suffixed v ` {1..cnt k}"
    by (auto simp: counted_def field_entries_def)
  have "inj_on (suffixed v) {1..cnt k}" by (auto intro: inj_onI dest: suffixed_inj)
  then have card: "card (suffixed v ` {1..cnt k}) = cnt k" by (simp add: card_image)
  have "v \<notin> suffixed v ` {1..cnt k}" by (metis imageE suffixed_neq_bare)
  with K have "v \<notin> fst ` set contact" by (auto simp: family_def)
  then have "map_of contact v = None" by (simp add: map_of_eq_None_iff)
  with K card show ?thesis by (simp add: archived_def)
qed

lemma standard_branch_places:
  assumes "is_standard cfg line" and "standard_branch cfg line st = Inr st'"
    and "py_nth (re_split_colon_semicolon line) 0 = Inr k"
    and "map_of (standard_field_dict cfg) k = Some v"
    and "decode_standard k line (last_symbol st) = Inr (data, lsym)"
  shows "standard_count st' k = Suc (standard_count st k)
       \<and> map_of (contact_dict st') =
           (if standard_count st k = 0 then (map_of (contact_dict st))(v \<mapsto> data)
            else if standard_count st k = 1
            then (map_of (contact_dict st))
                   (v := None, suffixed v 1 := map_of (contact_dict st) v, suffixed v 2 \<mapsto> data)
            else (map_of (contact_dict st))(suffixed v (Suc (standard_count st k)) \<mapsto> data))"
proof -
  from assms obtain c' v' where
    d: "disambiguate (Suc (standard_count st k)) v (contact_dict st) = Inr (c', v')"
    and st': "st' = st\<lparr>contact_dict := AList.update v' data c',
              standard_count := (standard_count st)(k := Suc (standard_count st k)),
              key := k, val := v', key_previous := k, value_previous := v',
              last_symbol := lsym\<rparr>"
    by (auto simp: standard_branch_def ebind_Inr_iff py_getitem_def)
  consider "standard_count st k = 0" | "standard_count st k = 1" | "1 < standard_count st k"
    by linarith
  then show ?thesis
  proof cases
    case 1
    with disambiguate_result[OF d] show ?thesis by (simp add: st' update_conv')
  next
    case 2
    with disambiguate_result[OF d] obtain old where
      "map_of (contact_dict st) v = Some old"
      "c' = AList.update (suffixed v 1) old (AList.delete v (contact_dict st))"
      "v' = suffixed v 2" by auto
    with 2 show ?thesis by (simp add: st' update_conv' delete_conv')
  next
    case 3
    with disambiguate_result[OF d] show ?thesis by (simp add: st' update_conv')
  qed
qed

lemma map_of_present: "map_of al k = Some x \<Longrightarrow> k \<in> fst ` set al"
  by (metis map_of_eq_None_iff option.distinct(1))

lemma field_store_persist:
  assumes d: "disambiguate (Suc c) w contact = Inr (c', w')"
    and own: "fst ` set contact \<inter> family w = field_entries c w"
    and rel: "w = v \<or> family w \<inter> family v = {}"
    and present: "map_of contact (suffixed v n) = Some x"
  shows "map_of (AList.update w' data c') (suffixed v n) = Some x"
proof -
  have inK: "suffixed v n \<in> fst ` set contact" using present by (rule map_of_present)
  have famv: "suffixed v n \<in> family v" by (simp add: family_def)
  have famw: "w \<in> family w" "suffixed w m \<in> family w" for m by (simp_all add: family_def)
  have bare: "suffixed v n \<noteq> w"
    using rel famv famw(1) suffixed_neq_bare[of v n] by blast
  consider "c = 0" | "c = 1" | "1 < c" by linarith
  then show ?thesis
  proof cases
    case 1
    with disambiguate_result[OF d] bare present show ?thesis by (simp add: update_conv')
  next
    case 2
    with disambiguate_result[OF d] obtain old where
      c': "c' = AList.update (suffixed w 1) old (AList.delete w contact)" and w': "w' = suffixed w 2"
      by auto
    have "suffixed v n \<noteq> suffixed w m" for m
    proof
      assume eq: "suffixed v n = suffixed w m"
      with inK famw(2)[of m] have "suffixed w m \<in> fst ` set contact \<inter> family w" by simp
      with own 2 have "suffixed w m = w" by (simp add: field_entries_def)
      then show False by (simp add: suffixed_neq_bare)
    qed
    with bare present show ?thesis by (simp add: c' w' update_conv' delete_conv')
  next
    case 3
    with disambiguate_result[OF d] have c': "c' = contact" and w': "w' = suffixed w (Suc c)"
      by auto
    have "suffixed v n \<noteq> suffixed w (Suc c)"
    proof
      assume eq: "suffixed v n = suffixed w (Suc c)"
      with inK famw(2)[of "Suc c"]
      have "suffixed w (Suc c) \<in> fst ` set contact \<inter> family w" by simp
      with own 3 have "suffixed w (Suc c) \<in> suffixed w ` {1..c}" by (simp add: field_entries_def)
      then obtain m where "suffixed w (Suc c) = suffixed w m" "m \<le> c" by auto
      then show False using suffixed_inj by fastforce
    qed
    with present show ?thesis by (simp add: c' w' update_conv')
  qed
qed

lemma name_relation:
  assumes "95 \<notin> set w" and "95 \<notin> set v"
  shows "w = v \<or> family w \<inter> family v = {}"
  using assms family_disjoint by blast

lemma standard_branch_persist:
  assumes "clean_names cfg" and "entries_inv cfg st" and "standard_branch cfg line st = Inr st'"
    and "95 \<notin> set v" and "map_of (contact_dict st) (suffixed v n) = Some x"
  shows "map_of (contact_dict st') (suffixed v n) = Some x"
proof (cases "is_standard cfg line")
  case False
  with assms(3,5) show ?thesis by (simp add: standard_branch_skip)
next
  case True
  from standard_branch_shape[OF assms(3) True] obtain k w c' w' data where
    k: "map_of (standard_field_dict cfg) k = Some w"
    and d: "disambiguate (Suc (standard_count st k)) w (contact_dict st) = Inr (c', w')"
    and c: "contact_dict st' = AList.update w' data c'"
    by blast
  have "95 \<notin> set w"
    using clean_names_name(1)[OF assms(1)] map_of_snd_mem[OF k] by blast
  then have rel: "w = v \<or> family w \<inter> family v = {}" using assms(4) by (rule name_relation)
  have own: "fst ` set (contact_dict st) \<inter> family w = field_entries (standard_count st k) w"
    using assms(2) k by (simp add: entries_inv_def counted_def)
  show ?thesis unfolding c by (rule field_store_persist[OF d own rel assms(5)])
qed

lemma custom_branch_persist:
  assumes "clean_names cfg" and "entries_inv cfg st" and "custom_branch cfg line st = Inr st'"
    and "95 \<notin> set v" and "map_of (contact_dict st) (suffixed v n) = Some x"
  shows "map_of (contact_dict st') (suffixed v n) = Some x"
proof (cases "is_custom cfg line")
  case False
  with assms(3,5) show ?thesis by (simp add: custom_branch_skip)
next
  case True
  from custom_branch_shape[OF assms(3) True] obtain k w c' w' data where
    k: "map_of (custom_field_dict cfg) k = Some w"
    and d: "disambiguate (Suc (custom_count st k)) w (contact_dict st) = Inr (c', w')"
    and c: "contact_dict st' = AList.update w' data c'"
    by blast
  have "95 \<notin> set w"
    using clean_names_name(1)[OF assms(1)] map_of_snd_mem[OF k] by blast
  then have rel: "w = v \<or> family w \<inter> family v = {}" using assms(4) by (rule name_relation)
  have own: "fst ` set (contact_dict st) \<inter> family w = field_entries (custom_count st k) w"
    using assms(2) k by (simp add: entries_inv_def counted_def)
  show ?thesis unfolding c by (rule field_store_persist[OF d own rel assms(5)])
qed

lemma social_branch_persist:
  assumes "clean_names cfg" and "entries_inv cfg st" and "social_branch cfg line st = Inr st'"
    and "95 \<notin> set v" and "map_of (contact_dict st) (suffixed v n) = Some x"
  shows "map_of (contact_dict st') (suffixed v n) = Some x"
proof (cases "is_social cfg line")
  case False
  with assms(3,5) show ?thesis by (simp add: social_branch_skip)
next
  case True
  from social_branch_shape[OF assms(3) True] obtain k w c' w' data where
    k: "map_of (social_profile_field_dict cfg) k = Some w"
    and d: "disambiguate (Suc (social_count st k)) w (contact_dict st) = Inr (c', w')"
    and c: "contact_dict st' = AList.update w' data c'"
    by blast
  have "95 \<notin> set w"
    using clean_names_name(1)[OF assms(1)] map_of_snd_mem[OF k] by blast
  then have rel: "w = v \<or> family w \<inter> family v = {}" using assms(4) by (rule name_relation)
  have own: "fst ` set (contact_dict st) \<inter> family w = field_entries (social_count st k) w"
    using assms(2) k by (simp add: entries_inv_def counted_def)
  show ?thesis unfolding c by (rule field_store_persist[OF d own rel assms(5)])
qed

lemma continuation_branch_persist:
  assumes "continuation_branch cfg line st = Inr st'"
    and "map_of (contact_dict st) name = Some x"
  shows "\<exists>y. map_of (contact_dict st') name = Some (x @ y)"
proof (cases "may_fold cfg (key_previous st) \<and> py_nth line 0 = Inr 32")
  case False
  with assms(1) have "st' = st"
    by (auto simp: continuation_branch_def ebind_def split: sum.splits if_splits)
  with assms(2) show ?thesis by simp
next
  case True
  with assms(1) obtain old y lsym where old: "map_of (contact_dict st) (value_previous st) = Some old"
    and st': "st' = st\<lparr>contact_dict := AList.update (value_previous st) (old @ y) (contact_dict st),
              last_symbol := lsym\<rparr>"
    by (auto simp: continuation_branch_def ebind_def py_getitem_def Let_def
        split: option.splits)
  show ?thesis
  proof (cases "name = value_previous st")
    case True
    with old assms(2) st' show ?thesis by (simp add: update_conv')
  next
    case False
    with assms(2) st' show ?thesis by (simp add: update_conv')
  qed
qed

lemma data_branches_persist:
  assumes "clean_names cfg" and "entries_inv cfg st" and "\<not> startswith line BEGIN_SYMBOL"
    and "data_branches cfg line st = Inr st'"
    and "95 \<notin> set v" and "map_of (contact_dict st) (suffixed v n) = Some x"
  shows "\<exists>y. map_of (contact_dict st') (suffixed v n) = Some (x @ y)"
proof (cases "listening_to_data st")
  case False
  with assms(4,6) show ?thesis by (simp add: data_branches_def)
next
  case True
  with assms(3,4) obtain s2 s3 s4 where
    s: "standard_branch cfg line st = Inr s2" "custom_branch cfg line s2 = Inr s3"
    "social_branch cfg line s3 = Inr s4" "continuation_branch cfg line s4 = Inr st'"
    by (auto simp: data_branches_def name_branch_skip ebind_Inr_iff)
  have i2: "entries_inv cfg s2" using standard_branch_inv[OF assms(1,2) s(1)] .
  have i3: "entries_inv cfg s3" using custom_branch_inv[OF assms(1) i2 s(2)] .
  have "map_of (contact_dict s2) (suffixed v n) = Some x"
    using standard_branch_persist[OF assms(1,2) s(1) assms(5,6)] .
  then have "map_of (contact_dict s3) (suffixed v n) = Some x"
    using custom_branch_persist[OF assms(1) i2 s(2) assms(5)] by blast
  then have "map_of (contact_dict s4) (suffixed v n) = Some x"
    using social_branch_persist[OF assms(1) i3 s(3) assms(5)] by blast
  then show ?thesis by (rule continuation_branch_persist[OF s(4)])
qed

lemma step_persist:
  assumes "clean_names cfg" and "entries_inv cfg st" and "\<not> startswith line BEGIN_SYMBOL"
    and "step cfg line st = Inr st'"
    and "95 \<notin> set v" and "map_of (contact_dict st) (suffixed v n) = Some x"
  shows "\<exists>y. map_of (contact_dict st') (suffixed v n) = Some (x @ y)"
proof (cases "startswith line END_SYMBOL \<and> listening_to_data st")
  case False
  then have "data_branches cfg line st = Inr st'"
    using assms(3,4) by (auto simp: step_def)
  from data_branches_persist[OF assms(1,2,3) this assms(5,6)] show ?thesis .
next
  case True
  then obtain fl where fl: "record_end cfg st = Inr fl"
    and rest: "(case fl of Continue s \<Rightarrow> Inr s | Fallthrough s \<Rightarrow> data_branches cfg line s) = Inr st'"
    using assms(3,4) by (auto simp: step_def ebind_Inr_iff)
  from record_end_cases[OF fl] show ?thesis
  proof (elim disjE)
    assume "fl = Fallthrough st"
    with rest have "data_branches cfg line st = Inr st'" by simp
    from data_branches_persist[OF assms(1,2,3) this assms(5,6)] show ?thesis .
  next
    assume "fl = Continue (st\<lparr>listening_to_data := False\<rparr>)"
    with rest assms(6) show ?thesis by auto
  next
    assume "fl = Continue (store_contact st)"
    with rest assms(6) show ?thesis by (auto simp: store_contact_simps)
  qed
qed

lemma disambiguate_places:
  assumes d: "disambiguate (Suc c) v contact = Inr (c', v')"
  shows "map_of (AList.update v' data c') =
           (if c = 0 then (map_of contact)(v \<mapsto> data)
            else if c = 1
            then (map_of contact)(v := None, suffixed v 1 := map_of contact v, suffixed v 2 \<mapsto> data)
            else (map_of contact)(suffixed v (Suc c) \<mapsto> data))"
proof -
  consider "c = 0" | "c = 1" | "1 < c" by linarith
  then show ?thesis
  proof cases
    case 1
    with disambiguate_result[OF d] show ?thesis by (simp add: update_conv')
  next
    case 2
    with disambiguate_result[OF d] obtain old where
      "map_of contact v = Some old"
      "c' = AList.update (suffixed v 1) old (AList.delete v contact)"
      "v' = suffixed v 2" by auto
    with 2 show ?thesis by (simp add: update_conv' delete_conv')
  next
    case 3
    with disambiguate_result[OF d] show ?thesis by (simp add: update_conv')
  qed
qed

lemma custom_branch_places:
  assumes "is_custom cfg line" and "custom_branch cfg line st = Inr st'"
    and "List.find (\<lambda>f. py_find f line \<noteq> None) (custom_field_list cfg) = Some k"
    and "map_of (custom_field_dict cfg) k = Some v"
    and "py_last (py_split (ustr ''-=+=-'') line) = Inr piece"
  shows "custom_count st' k = Suc (custom_count st k)
       \<and> map_of (contact_dict st') =
           (if custom_count st k = 0 then (map_of (contact_dict st))(v \<mapsto> py_replace [10] [] piece)
            else if custom_count st k = 1
            then (map_of (contact_dict st))
                   (v := None, suffixed v 1 := map_of (contact_dict st) v,
                    suffixed v 2 \<mapsto> py_replace [10] [] piece)
            else (map_of (contact_dict st))
                   (suffixed v (Suc (custom_count st k)) \<mapsto> py_replace [10] [] piece))"
proof -
  from assms obtain c' v' where
    d: "disambiguate (Suc (custom_count st k)) v (contact_dict st) = Inr (c', v')"
    and st': "st' = st\<lparr>contact_dict := AList.update v' (py_replace [10] [] piece) c',
              custom_count := (custom_count st)(k := Suc (custom_count st k)),
              key := k, val := v', key_previous := k, value_previous := v'\<rparr>"
    by (auto simp: custom_branch_def ebind_Inr_iff py_getitem_def)
  show ?thesis unfolding st' using disambiguate_places[OF d] by simp
qed

lemma social_branch_places:
  assumes "is_social cfg line" and "social_branch cfg line st = Inr st'"
    and "py_nth (py_split (ustr '';'') line) 1 = Inr seg"
    and "py_nth (py_split (ustr '':'') seg) 0 = Inr typ"
    and "k = py_replace (ustr ''TYPE='') [] typ"
    and "map_of (social_profile_field_dict cfg) k = Some v"
    and "py_last (py_split (ustr '';'') line) = Inr last_seg"
    and "py_nth (py_split (ustr '':'') last_seg) 0 = Inr label"
    and "data = py_replace [10] [] (py_replace (label @ ustr '':'') [] last_seg)"
  shows "social_count st' k = Suc (social_count st k)
       \<and> map_of (contact_dict st') =
           (if social_count st k = 0 then (map_of (contact_dict st))(v \<mapsto> data)
            else if social_count st k = 1
            then (map_of (contact_dict st))
                   (v := None, suffixed v 1 := map_of (contact_dict st) v,
                    suffixed v 2 \<mapsto> data)
            else (map_of (contact_dict st))
                   (suffixed v (Suc (social_count st k)) \<mapsto> data))"
proof -
  from assms obtain c' v' where
    d: "disambiguate (Suc (social_count st k)) v (contact_dict st) = Inr (c', v')"
    and st': "st' = st\<lparr>contact_dict := AList.update v' data c',
              social_count := (social_count st)(k := Suc (social_count st k)),
              key := k, val := v', key_previous := k, value_previous := v'\<rparr>"
    by (auto simp: social_branch_def ebind_Inr_iff py_getitem_def Let_def)
  show ?thesis unfolding st' using disambiguate_places[OF d] by simp
qed

section \<open>Repeated fields in a contact\<close>

text \<open>
  C1, as the code has it. With tables that keep canonical names apart, in every state the
  loop reaches: a canonical name whose raw key has been counted \<open>c \<ge> 2\<close> times in the
  current record has exactly the \<open>c\<close> entries \<open>_1\<close> to \<open>_c\<close> in the contact and no
  bare entry, in each of the three tables. Each of the standard, custom and social
  branches stores the value of the first occurrence of a raw key under the bare name; the
  second occurrence moves that entry to \<open>_1\<close> and is stored under \<open>_2\<close>; every
  later one is stored under the suffix of its own count. A suffixed entry, once stored,
  stays for the rest of the record: a later line leaves its value as it is or appends to
  it. So the suffixes follow the encounter order and the last value is under \<open>_c\<close>.
\<close>

theorem repeated_fields:
  assumes "clean_names cfg" and "run cfg init_state ls = Inr st"
  shows "(\<forall>k v. map_of (standard_field_dict cfg) k = Some v \<and> 2 \<le> standard_count st k
            \<longrightarrow> archived (contact_dict st) v (standard_count st k))
       \<and> (\<forall>k v. map_of (custom_field_dict cfg) k = Some v \<and> 2 \<le> custom_count st k
            \<longrightarrow> archived (contact_dict st) v (custom_count st k))
       \<and> (\<forall>k v. map_of (social_profile_field_dict cfg) k = Some v \<and> 2 \<le> social_count st k
            \<longrightarrow> archived (contact_dict st) v (social_count st k))
       \<and> (\<forall>line st' k v data lsym.
            is_standard cfg line \<and> standard_branch cfg line st = Inr st'
            \<and> py_nth (re_split_colon_semicolon line) 0 = Inr k
            \<and> map_of (standard_field_dict cfg) k = Some v
            \<and> decode_standard k line (last_symbol st) = Inr (data, lsym)
            \<longrightarrow> standard_count st' k = Suc (standard_count st k)
              \<and> map_of (contact_dict st') =
                  (if standard_count st k = 0 then (map_of (contact_dict st))(v \<mapsto> data)
                   else if standard_count st k = 1
                   then (map_of (contact_dict st))
                          (v := None, suffixed v 1 := map_of (contact_dict st) v,
                           suffixed v 2 \<mapsto> data)
                   else (map_of (contact_dict st))
                          (suffixed v (Suc (standard_count st k)) \<mapsto> data)))
       \<and> (\<forall>line st' k v piece.
            is_custom cfg line \<and> custom_branch cfg line st = Inr st'
            \<and> List.find (\<lambda>f. py_find f line \<noteq> None) (custom_field_list cfg) = Some k
            \<and> map_of (custom_field_dict cfg) k = Some v
            \<and> py_last (py_split (ustr ''-=+=-'') line) = Inr piece
            \<longrightarrow> custom_count st' k = Suc (custom_count st k)
              \<and> map_of (contact_dict st') =
                  (if custom_count st k = 0
                   then (map_of (contact_dict st))(v \<mapsto> py_replace [10] [] piece)
                   else if custom_count st k = 1
                   then (map_of (contact_dict st))
                          (v := None, suffixed v 1 := map_of (contact_dict st) v,
                           suffixed v 2 \<mapsto> py_replace [10] [] piece)
                   else (map_of (contact_dict st))
                          (suffixed v (Suc (custom_count st k)) \<mapsto> py_replace [10] [] piece)))
       \<and> (\<forall>line st' seg typ k v last_seg label data.
            is_social cfg line \<and> social_branch cfg line st = Inr st'
            \<and> py_nth (py_split (ustr '';'') line) 1 = Inr seg
            \<and> py_nth (py_split (ustr '':'') seg) 0 = Inr typ
            \<and> k = py_replace (ustr ''TYPE='') [] typ
            \<and> map_of (social_profile_field_dict cfg) k = Some v
            \<and> py_last (py_split (ustr '';'') line) = Inr last_seg
            \<and> py_nth (py_split (ustr '':'') last_seg) 0 = Inr label
            \<and> data = py_replace [10] [] (py_replace (label @ ustr '':'') [] last_seg)
            \<longrightarrow> social_count st' k = Suc (social_count st k)
              \<and> map_of (contact_dict st') =
                  (if social_count st k = 0 then (map_of (contact_dict st))(v \<mapsto> data)
                   else if social_count st k = 1
                   then (map_of (contact_dict st))
                          (v := None, suffixed v 1 := map_of (contact_dict st) v,
                           suffixed v 2 \<mapsto> data)
                   else (map_of (contact_dict st))
                          (suffixed v (Suc (social_count st k)) \<mapsto> data)))
       \<and> (\<forall>line st' v n x.
            \<not> startswith line BEGIN_SYMBOL \<and> step cfg line st = Inr st'
            \<and> 95 \<notin> set v \<and> map_of (contact_dict st) (suffixed v n) = Some x
            \<longrightarrow> (\<exists>y. map_of (contact_dict st') (suffixed v n) = Some (x @ y)))"
proof -
  have inv: "entries_inv cfg st"
    using run_inv[OF assms(1) init_state_inv assms(2)] .
  have keep: "\<exists>y. map_of (contact_dict st') (suffixed v n) = Some (x @ y)"
    if "\<not> startswith line BEGIN_SYMBOL \<and> step cfg line st = Inr st'
        \<and> 95 \<notin> set v \<and> map_of (contact_dict st) (suffixed v n) = Some x"
    for line st' v n x
    using step_persist[OF assms(1) inv, of line st' v n x] that by blast
  from inv have "counted (fst ` set (contact_dict st)) (standard_field_dict cfg) (standard_count st)"
    "counted (fst ` set (contact_dict st)) (custom_field_dict cfg) (custom_count st)"
    "counted (fst ` set (contact_dict st)) (social_profile_field_dict cfg) (social_count st)"
    by (simp_all add: entries_inv_def)
  then have tables:
    "\<forall>k v. map_of (standard_field_dict cfg) k = Some v \<and> 2 \<le> standard_count st k
            \<longrightarrow> archived (contact_dict st) v (standard_count st k)"
    "\<forall>k v. map_of (custom_field_dict cfg) k = Some v \<and> 2 \<le> custom_count st k
            \<longrightarrow> archived (contact_dict st) v (custom_count st k)"
    "\<forall>k v. map_of (social_profile_field_dict cfg) k = Some v \<and> 2 \<le> social_count st k
            \<longrightarrow> archived (contact_dict st) v (social_count st k)"
    using counted_archived by blast+
  have std: "\<forall>line st' k v data lsym.
            is_standard cfg line \<and> standard_branch cfg line st = Inr st'
            \<and> py_nth (re_split_colon_semicolon line) 0 = Inr k
            \<and> map_of (standard_field_dict cfg) k = Some v
            \<and> decode_standard k line (last_symbol st) = Inr (data, lsym)
            \<longrightarrow> standard_count st' k = Suc (standard_count st k)
              \<and> map_of (contact_dict st') =
                  (if standard_count st k = 0 then (map_of (contact_dict st))(v \<mapsto> data)
                   else if standard_count st k = 1
                   then (map_of (contact_dict st))
                          (v := None, suffixed v 1 := map_of (contact_dict st) v,
                           suffixed v 2 \<mapsto> data)
                   else (map_of (contact_dict st))
                          (suffixed v (Suc (standard_count st k)) \<mapsto> data))"
    using standard_branch_places by blast
  have cus: "\<forall>line st' k v piece.
            is_custom cfg line \<and> custom_branch cfg line st = Inr st'
            \<and> List.find (\<lambda>f. py_find f line \<noteq> None) (custom_field_list cfg) = Some k
            \<and> map_of (custom_field_dict cfg) k = Some v
            \<and> py_last (py_split (ustr ''-=+=-'') line) = Inr piece
            \<longrightarrow> custom_count st' k = Suc (custom_count st k)
              \<and> map_of (contact_dict st') =
                  (if custom_count st k = 0
                   then (map_of (contact_dict st))(v \<mapsto> py_replace [10] [] piece)
                   else if custom_count st k = 1
                   then (map_of (contact_dict st))
                          (v := None, suffixed v 1 := map_of (contact_dict st) v,
                           suffixed v 2 \<mapsto> py_replace [10] [] piece)
                   else (map_of (contact_dict st))
                          (suffixed v (Suc (custom_count st k)) \<mapsto> py_replace [10] [] piece))"
    using custom_branch_places by blast
  have soc: "\<forall>line st' seg typ k v last_seg label data.
            is_social cfg line \<and> social_branch cfg line st = Inr st'
            \<and> py_nth (py_split (ustr '';'') line) 1 = Inr seg
            \<and> py_nth (py_split (ustr '':'') seg) 0 = Inr typ
            \<and> k = py_replace (ustr ''TYPE='') [] typ
            \<and> map_of (social_profile_field_dict cfg) k = Some v
            \<and> py_last (py_split (ustr '';'') line) = Inr last_seg
            \<and> py_nth (py_split (ustr '':'') last_seg) 0 = Inr label
            \<and> data = py_replace [10] [] (py_replace (label @ ustr '':'') [] last_seg)
            \<longrightarrow> social_count st' k = Suc (social_count st k)
              \<and> map_of (contact_dict st') =
                  (if social_count st k = 0 then (map_of (contact_dict st))(v \<mapsto> data)
                   else if social_count st k = 1
                   then (map_of (contact_dict st))
                          (v := None, suffixed v 1 := map_of (contact_dict st) v,
                           suffixed v 2 \<mapsto> data)
                   else (map_of (contact_dict st))
                          (suffixed v (Suc (social_count st k)) \<mapsto> data))"
    using social_branch_places by blast
  have keep_all: "\<forall>line st' v n x.
            \<not> startswith line BEGIN_SYMBOL \<and> step cfg line st = Inr st'
            \<and> 95 \<notin> set v \<and> map_of (contact_dict st) (suffixed v n) = Some x
            \<longrightarrow> (\<exists>y. map_of (contact_dict st') (suffixed v n) = Some (x @ y))"
    using keep by blast
  show ?thesis
    by (intro conjI) (rule tables(1), rule tables(2), rule tables(3), rule std, rule cus,
        rule soc, rule keep_all)
qed

lemma py_str_2: "py_str 2 = ustr ''2''" "py_str (Suc (Suc 0)) = ustr ''2''"
  by (simp_all add: py_str.simps[of 2] py_str.simps[of "Suc (Suc 0)"] ustr_simps)

lemma example_config_clean: "clean_names example_config"
  by (simp add: clean_names_def canonical_names_def example_config_def name_fields_def
      ustr_simps)

lemma example_repeated_runs: "\<not> isl (run example_config init_state example_repeated)"
  by (simp add: example_repeated_def py_str_2 suffixed_1 eval_defs)

lemma example_repeated_count:
  "standard_count (projr (run example_config init_state example_repeated)) (ustr ''TEL'') = 2"
  by (simp add: example_repeated_def py_str_2 suffixed_1 eval_defs)

theorem repeated_fields_witness:
  "archived (contact_dict (projr (run example_config init_state example_repeated)))
     (ustr ''Phone'') 2"
proof -
  have h: "run example_config init_state example_repeated
             = Inr (projr (run example_config init_state example_repeated))"
    using example_repeated_runs by simp
  have k: "map_of (standard_field_dict example_config) (ustr ''TEL'') = Some (ustr ''Phone'')"
    by (simp add: example_config_def ustr_simps)
  from repeated_fields[OF example_config_clean h]
  have "\<forall>k v. map_of (standard_field_dict example_config) k = Some v
              \<and> 2 \<le> standard_count (projr (run example_config init_state example_repeated)) k
          \<longrightarrow> archived (contact_dict (projr (run example_config init_state example_repeated))) v
                (standard_count (projr (run example_config init_state example_repeated)) k)"
    by (rule conjunct1)
  with k example_repeated_count show ?thesis by (metis order_refl)
qed

theorem repeated_fields_counterexample:
  "field_of (run example_config init_state example_repeated) (ustr ''Phone'') = None
   \<and> field_of (run example_config init_state example_repeated) (ustr ''Phone_1'')
       = Some (ustr ''111'')
   \<and> field_of (run example_config init_state example_repeated) (ustr ''Phone_2'')
       = Some (ustr ''222'')"
  by (simp add: example_repeated_def py_str_2 suffixed_1 eval_defs)

end
